theory Spec2Isabelle
  imports Complex_Main "HOL-Library.Sublist"
begin

section \<open>Data model\<close>

text \<open>
  Times are instants in milliseconds since the epoch, the number a JavaScript \<open>Date\<close>
  holds. An ISO-8601 string that \<open>new Date\<close> cannot read is an invalid date
  (its time value is NaN): \<open>None\<close>.
\<close>

type_synonym instant = int

text \<open>
  A \<open>string\<close> is a JavaScript string written in bytes: each UTF-16 code unit as the one
  to three bytes that UTF-8 gives the code point of that number, so an ASCII character is
  one byte and a byte from 128 to 191 continues a code unit. Equality, concatenation and
  containment of strings are those of their bytes.
\<close>

text \<open>
  The fields an adapter's item and a stored record have in common, then the two shapes.
  The fields that \<open>upsertPost\<close> guards with \<open>||\<close> are optional in the incoming
  item (\<open>content_in\<close>, \<open>num_comments_in\<close>); the stored record has the
  surrogate id (\<open>post_id\<close>, the field \<open>id\<close> of the source) and \<open>fetched_at\<close>.
\<close>

record entry =
  reddit_id :: string
  title :: string
  author :: string
  subreddit :: string
  upvotes :: int
  created_at :: "instant option"
  url :: string

record item = entry +
  content_in :: "string option"
  num_comments_in :: "int option"
  source :: string

record post = entry +
  post_id :: string
  content :: string
  num_comments :: int
  fetched_at :: instant

text \<open>
  A file holds the JSON text of a collection (what \<open>JSON.stringify\<close> writes and
  \<open>JSON.parse\<close> reads back), or JSON text that parses to something else (\<open>null\<close>,
  or another value that is not an array of records, given by its text), or something
  that cannot be read or parsed.
\<close>

datatype other_value = JsonNull | JsonValue string

datatype file_content = Corrupt | Json "post list" | NotRecords other_value

text \<open>
  \<open>String.prototype.toLowerCase\<close>, the lowercasing of Unicode, is a builtin, not part of
  the program: the runtime gives it, as a function on strings.
\<close>

record runtime =
  toLowerCase :: "string \<Rightarrow> string"

text \<open>
  The database object together with the environment it touches: the runtime, the file system
  (\<open>files\<close>, and \<open>write_ok\<close> telling whether \<open>writeFileSync\<close> succeeds on a path),
  the system clock (\<open>clock s n\<close> is its \<open>n\<close>-th reading, \<open>reads\<close> counts the readings
  made), the time zone of the process (\<open>LocalTime\<close> takes an instant to local time,
  \<open>UTC\<close> takes a local time back) and the random generator (\<open>rand s n\<close> is the text
  \<open>Math.random().toString(36).substr(2)\<close> of the \<open>n\<close>-th draw). Console output, and
  the clock readings that only stamp it, are left out.
\<close>

record store = runtime +
  dbPath :: string
  posts :: "post list"
  files :: "string \<rightharpoonup> file_content"
  write_ok :: "string \<Rightarrow> bool"
  clock :: "nat \<Rightarrow> instant"
  reads :: nat
  LocalTime :: "instant \<Rightarrow> instant"
  UTC :: "instant \<Rightarrow> instant"
  rand :: "nat \<Rightarrow> string"
  draws :: nat

section \<open>The store: PostsDatabase\<close>

text \<open>\<open>save\<close>: a whole-file rewrite; a failing write is caught and changes nothing.\<close>

definition save :: "store \<Rightarrow> store" where
  "save s =
     (if write_ok s (dbPath s)
      then s\<lparr>files := (files s)(dbPath s \<mapsto> Json (posts s))\<rparr>
      else s)"

text \<open>\<open>Array.prototype.findIndex\<close>: the first index that satisfies, \<open>None\<close> for -1.\<close>

fun findIndex :: "('a \<Rightarrow> bool) \<Rightarrow> 'a list \<Rightarrow> nat option" where
  "findIndex P [] = None"
| "findIndex P (x # xs) = (if P x then Some 0 else map_option Suc (findIndex P xs))"

text \<open>\<open>Number.prototype.toString(36)\<close> on a non-negative integer.\<close>

definition digit36 :: "nat \<Rightarrow> char" where
  "digit36 d = ''0123456789abcdefghijklmnopqrstuvwxyz'' ! d"

function toString36 :: "nat \<Rightarrow> string" where
  "toString36 n = (if n < 36 then [digit36 n] else toString36 (n div 36) @ [digit36 (n mod 36)])"
  by pat_completeness auto
termination
  by (relation "measure (\<lambda>n. n)") auto

text \<open>The object literal \<open>postData\<close> of \<open>upsertPost\<close>.\<close>

definition postData :: "item \<Rightarrow> string \<Rightarrow> instant \<Rightarrow> post" where
  "postData p pid now =
     \<lparr> reddit_id = reddit_id p,
       title = title p,
       author = author p,
       subreddit = subreddit p,
       upvotes = upvotes p,
       created_at = created_at p,
       url = url p,
       post_id = pid,
       content = (case content_in p of None \<Rightarrow> [] | Some c \<Rightarrow> c),
       num_comments = (case num_comments_in p of None \<Rightarrow> 0 | Some n \<Rightarrow> n),
       fetched_at = now \<rparr>"

text \<open>
  \<open>upsertPost\<close>: look the record up by \<open>reddit_id\<close>, read the clock for \<open>now\<close>, keep
  the surrogate id of a record that exists or make a new one from a second clock reading
  and a random draw, overwrite in place or push, save.
\<close>

definition upsertPost :: "item \<Rightarrow> store \<Rightarrow> post \<times> store" where
  "upsertPost p s =
     (let index = findIndex (\<lambda>q. reddit_id q = reddit_id p) (posts s);
          now = clock s (reads s);
          s1 = s\<lparr>reads := Suc (reads s)\<rparr>
      in case index of
           Some i \<Rightarrow>
             (let pd = postData p (post_id (posts s ! i)) now
              in (pd, save (s1\<lparr>posts := (posts s1)[i := pd]\<rparr>)))
         | None \<Rightarrow>
             (let pd = postData p (toString36 (nat (clock s1 (reads s1))) @ rand s1 (draws s1)) now;
                  s2 = s1\<lparr>reads := Suc (reads s1), draws := Suc (draws s1)\<rparr>
              in (pd, save (s2\<lparr>posts := posts s2 @ [pd]\<rparr>))))"

text \<open>\<open>upsertPosts\<close>: the loop over the batch, collecting the stored records.\<close>

fun upsertPosts :: "item list \<Rightarrow> store \<Rightarrow> post list \<times> store" where
  "upsertPosts [] s = ([], s)"
| "upsertPosts (p # ps) s =
     (let (r, s1) = upsertPost p s;
          (rs, s2) = upsertPosts ps s1
      in (r # rs, s2))"

text \<open>\<open>getPost\<close>: the first record with the given \<open>reddit_id\<close>.\<close>

definition getPost :: "string \<Rightarrow> store \<Rightarrow> post option" where
  "getPost redditId s = find (\<lambda>p. reddit_id p = redditId) (posts s)"

text \<open>A sequence of batches, each through \<open>upsertPosts\<close>.\<close>

definition upsertBatches :: "item list list \<Rightarrow> store \<Rightarrow> store" where
  "upsertBatches bs s = foldl (\<lambda>t b. snd (upsertPosts b t)) s bs"

section \<open>Facts about lookup and single upserts\<close>

lemma findIndex_Some_iff:
  "findIndex P xs = Some i \<longleftrightarrow> i < length xs \<and> P (xs ! i) \<and> (\<forall>j<i. \<not> P (xs ! j))"
proof (induction xs arbitrary: i)
  case Nil
  then show ?case by simp
next
  case (Cons x xs)
  show ?case
  proof (cases "P x")
    case True
    then show ?thesis by (cases i) auto
  next
    case False
    show ?thesis
    proof (cases i)
      case 0
      with False show ?thesis by auto
    next
      case (Suc k)
      have "(\<forall>j<Suc k. \<not> P ((x # xs) ! j)) \<longleftrightarrow> (\<forall>j<k. \<not> P (xs ! j))"
        using False by (auto simp: less_Suc_eq_0_disj)
      with False Suc Cons.IH [of k] show ?thesis by auto
    qed
  qed
qed

lemma findIndex_None_iff: "findIndex P xs = None \<longleftrightarrow> (\<forall>x\<in>set xs. \<not> P x)"
  by (induction xs) auto

lemma posts_save [simp]: "posts (save s) = posts s"
  by (simp add: save_def)

lemma clock_save [simp]: "clock (save s) = clock s"
  by (simp add: save_def)

lemma reads_save [simp]: "reads (save s) = reads s"
  by (simp add: save_def)

lemma reddit_id_postData [simp]: "reddit_id (postData p pid now) = reddit_id p"
  by (simp add: postData_def)

lemma posts_upsertPost:
  "posts (snd (upsertPost p s)) =
     (case findIndex (\<lambda>q. reddit_id q = reddit_id p) (posts s) of
        Some i \<Rightarrow> (posts s)[i := fst (upsertPost p s)]
      | None \<Rightarrow> posts s @ [fst (upsertPost p s)])"
  by (simp add: upsertPost_def Let_def split: option.splits)

lemma reddit_id_fst_upsertPost [simp]: "reddit_id (fst (upsertPost p s)) = reddit_id p"
  by (simp add: upsertPost_def Let_def split: option.splits)

lemma ids_upsertPost:
  "map reddit_id (posts (snd (upsertPost p s))) =
     (if reddit_id p \<in> reddit_id ` set (posts s) then map reddit_id (posts s)
      else map reddit_id (posts s) @ [reddit_id p])"
proof (cases "findIndex (\<lambda>q. reddit_id q = reddit_id p) (posts s)")
  case None
  then have "reddit_id p \<notin> reddit_id ` set (posts s)"
    by (auto simp: findIndex_None_iff)
  with None show ?thesis by (simp add: posts_upsertPost)
next
  case (Some i)
  then have i: "i < length (posts s)" "reddit_id (posts s ! i) = reddit_id p"
    by (simp_all add: findIndex_Some_iff)
  then have "reddit_id p \<in> reddit_id ` set (posts s)"
    by (metis imageI nth_mem)
  moreover have "map reddit_id ((posts s)[i := fst (upsertPost p s)]) = map reddit_id (posts s)"
    using i by (simp add: map_update list_update_same_conv)
  ultimately show ?thesis using Some by (simp add: posts_upsertPost)
qed

lemma distinct_ids_upsertPost:
  "distinct (map reddit_id (posts s)) \<Longrightarrow> distinct (map reddit_id (posts (snd (upsertPost p s))))"
  by (simp add: ids_upsertPost)

lemma distinct_ids_upsertPosts:
  "distinct (map reddit_id (posts s)) \<Longrightarrow> distinct (map reddit_id (posts (snd (upsertPosts ps s))))"
proof (induction ps arbitrary: s)
  case Nil
  then show ?case by simp
next
  case (Cons p ps)
  from Cons.prems have "distinct (map reddit_id (posts (snd (upsertPost p s))))"
    by (rule distinct_ids_upsertPost)
  then have "distinct (map reddit_id (posts (snd (upsertPosts ps (snd (upsertPost p s))))))"
    by (rule Cons.IH)
  then show ?case by (simp add: split_beta Let_def)
qed

lemma distinct_ids_upsertBatches:
  "distinct (map reddit_id (posts s)) \<Longrightarrow> distinct (map reddit_id (posts (upsertBatches bs s)))"
  unfolding upsertBatches_def
  by (induction bs arbitrary: s) (simp_all add: distinct_ids_upsertPosts)

lemma find_findIndex:
  "find P xs = (case findIndex P xs of None \<Rightarrow> None | Some i \<Rightarrow> Some (xs ! i))"
  by (induction xs) (auto split: option.splits)

lemma find_snoc:
  "find P (xs @ [x]) = (case find P xs of Some y \<Rightarrow> Some y | None \<Rightarrow> if P x then Some x else None)"
  by (induction xs) auto

lemma getPost_upsertPost_same:
  "getPost (reddit_id p) (snd (upsertPost p s)) = Some (fst (upsertPost p s))"
proof (cases "findIndex (\<lambda>q. reddit_id q = reddit_id p) (posts s)")
  case None
  then have "find (\<lambda>q. reddit_id q = reddit_id p) (posts s) = None"
    by (simp add: find_findIndex)
  with None show ?thesis
    by (simp add: getPost_def posts_upsertPost find_snoc)
next
  case (Some i)
  let ?r = "fst (upsertPost p s)"
  from Some have i: "i < length (posts s)" "\<forall>j<i. reddit_id (posts s ! j) \<noteq> reddit_id p"
    by (simp_all add: findIndex_Some_iff)
  then have "findIndex (\<lambda>q. reddit_id q = reddit_id p) ((posts s)[i := ?r]) = Some i"
    by (simp add: findIndex_Some_iff)
  with Some i show ?thesis
    by (simp add: getPost_def posts_upsertPost find_findIndex)
qed

section \<open>Example values\<close>

text \<open>
  The lowering of the letters A to Z, which is what \<open>toLowerCase\<close> does to ASCII text;
  the example runtimes have it for \<open>toLowerCase\<close>.
\<close>

definition asciiLower :: "string \<Rightarrow> string" where
  "asciiLower cs =
     map (\<lambda>c. if 65 \<le> (of_char c :: nat) \<and> (of_char c :: nat) \<le> 90
              then char_of (of_char c + 32 :: nat) else c) cs"

text \<open>
  An empty store whose writes succeed, with a clock that advances one second per reading,
  two hours east of Greenwich, and a repository listing reported with a given star count.
\<close>

definition store0 :: store where
  "store0 =
     \<lparr> toLowerCase = asciiLower,
       dbPath = ''data/posts.json'', posts = [], files = Map.empty,
       write_ok = (\<lambda>_. True),
       clock = (\<lambda>n. 1700000000000 + 1000 * int n), reads = 0,
       LocalTime = (\<lambda>t. t + 7200000), UTC = (\<lambda>t. t - 7200000),
       rand = (\<lambda>n. replicate (Suc n) CHR ''z''), draws = 0 \<rparr>"

definition gh_item :: "int \<Rightarrow> item" where
  "gh_item stars =
     \<lparr> reddit_id = ''gh_42'', title = ''[GitHub] a/b'', author = ''a'',
       subreddit = ''GitHub'', upvotes = stars, created_at = Some 1699000000000,
       url = ''https://github.com/a/b'', content_in = Some ''tool'',
       num_comments_in = Some 3, source = ''github'' \<rparr>"

definition hn_item :: "string \<Rightarrow> item" where
  "hn_item k =
     \<lparr> reddit_id = k, title = ''[HN] story'', author = ''pg'',
       subreddit = ''HackerNews'', upvotes = 10, created_at = Some 1699500000000,
       url = ''https://news.ycombinator.com/item?id=1'', content_in = None,
       num_comments_in = None, source = ''hackernews'' \<rparr>"

text \<open>The store after a first ingestion of the listing, and the record it made.\<close>

definition store1 :: store where
  "store1 = snd (upsertPost (gh_item 5) store0)"

definition old1 :: post where
  "old1 = fst (upsertPost (gh_item 5) store0)"

text \<open>A batch in which one id occurs twice, and the stores after one and two runs of it.\<close>

definition batch1 :: "item list" where
  "batch1 = [gh_item 5, hn_item ''hn_1'', gh_item 7]"

definition store_once :: store where
  "store_once = snd (upsertPosts batch1 store0)"

definition store_twice :: store where
  "store_twice = snd (upsertPosts batch1 store_once)"

section \<open>Uniqueness of the external id\<close>

text \<open>
  C1. Whatever batches go through \<open>upsertPosts\<close>, one after the other, into a store
  whose records have pairwise different \<open>reddit_id\<close>s (the empty store is one), the
  records of the store have pairwise different \<open>reddit_id\<close>s after each batch, that is
  after the first \<open>k\<close> batches for every \<open>k\<close>. Nothing is asked of the batches: an id
  may occur twice in a batch, and under different sources.
\<close>

theorem upsertPosts_reddit_id_unique:
  assumes "distinct (map reddit_id (posts s))"
  shows "distinct (map reddit_id (posts (upsertBatches (take k bs) s)))"
  using assms by (rule distinct_ids_upsertBatches)

theorem upsertPosts_reddit_id_unique_witness:
  "distinct (map reddit_id (posts store0)) \<and>
   map reddit_id (posts (upsertBatches
       (take 2 [[gh_item 5, hn_item ''gh_42'', hn_item ''hn_1'', gh_item 7], [hn_item ''hn_1'', gh_item 9]])
       store0)) = [''gh_42'', ''hn_1''] \<and>
   distinct (map reddit_id (posts (upsertBatches
       (take 2 [[gh_item 5, hn_item ''gh_42'', hn_item ''hn_1'', gh_item 7], [hn_item ''hn_1'', gh_item 9]])
       store0)))"
  using upsertPosts_reddit_id_unique [of store0 2
      "[[gh_item 5, hn_item ''gh_42'', hn_item ''hn_1'', gh_item 7], [hn_item ''hn_1'', gh_item 9]]"]
  by (simp add: store0_def gh_item_def hn_item_def upsertBatches_def upsertPost_def postData_def
      save_def Let_def)

section \<open>Upsert of an id the store already has\<close>

text \<open>
  C3. When the store already has a record with the item's \<open>reddit_id\<close> (\<open>old\<close>, the one
  \<open>getPost\<close> finds), \<open>upsertPost\<close> leaves the number of records as it is, and the
  record found under that id afterwards is the one it returns: it has the surrogate id of
  \<open>old\<close>, its \<open>fetched_at\<close> is the clock reading of this call, and its \<open>created_at\<close>
  is the incoming item's.
\<close>

theorem upsertPost_existing:
  assumes "getPost (reddit_id p) s = Some old"
  shows "length (posts (snd (upsertPost p s))) = length (posts s) \<and>
         getPost (reddit_id p) (snd (upsertPost p s)) = Some (fst (upsertPost p s)) \<and>
         post_id (fst (upsertPost p s)) = post_id old \<and>
         fetched_at (fst (upsertPost p s)) = clock s (reads s) \<and>
         created_at (fst (upsertPost p s)) = created_at p"
proof -
  from assms obtain i where i: "findIndex (\<lambda>q. reddit_id q = reddit_id p) (posts s) = Some i"
    and old: "old = posts s ! i"
    by (auto simp: getPost_def find_findIndex split: option.splits)
  have "length (posts (snd (upsertPost p s))) = length (posts s)"
    using i by (simp add: posts_upsertPost)
  moreover have "fst (upsertPost p s) = postData p (post_id old) (clock s (reads s))"
    using i old by (simp add: upsertPost_def Let_def)
  ultimately show ?thesis
    by (simp add: getPost_upsertPost_same postData_def)
qed

theorem upsertPost_existing_witness:
  "getPost (reddit_id ((gh_item 7)\<lparr>created_at := Some 1699900000000\<rparr>)) store1 = Some old1 \<and>
   length (posts (snd (upsertPost ((gh_item 7)\<lparr>created_at := Some 1699900000000\<rparr>) store1))) =
     length (posts store1) \<and>
   getPost ''gh_42'' (snd (upsertPost ((gh_item 7)\<lparr>created_at := Some 1699900000000\<rparr>) store1)) =
     Some (fst (upsertPost ((gh_item 7)\<lparr>created_at := Some 1699900000000\<rparr>) store1)) \<and>
   post_id (fst (upsertPost ((gh_item 7)\<lparr>created_at := Some 1699900000000\<rparr>) store1)) = post_id old1 \<and>
   fetched_at old1 = 1700000000000 \<and>
   fetched_at (fst (upsertPost ((gh_item 7)\<lparr>created_at := Some 1699900000000\<rparr>) store1)) = 1700000002000 \<and>
   created_at old1 = Some 1699000000000 \<and>
   created_at (fst (upsertPost ((gh_item 7)\<lparr>created_at := Some 1699900000000\<rparr>) store1)) =
     Some 1699900000000"
proof -
  have h: "getPost (reddit_id ((gh_item 7)\<lparr>created_at := Some 1699900000000\<rparr>)) store1 = Some old1"
    by (simp add: getPost_def store1_def old1_def store0_def gh_item_def upsertPost_def Let_def)
  have old: "fetched_at old1 = 1700000000000" "created_at old1 = Some 1699000000000"
    by (simp_all add: old1_def store0_def gh_item_def upsertPost_def postData_def Let_def)
  have rd: "clock store1 (reads store1) = 1700000002000"
    by (simp add: store1_def store0_def gh_item_def upsertPost_def Let_def)
  have id: "reddit_id ((gh_item 7)\<lparr>created_at := Some 1699900000000\<rparr>) = ''gh_42''"
    by (simp add: gh_item_def)
  from upsertPost_existing [OF h] h old rd id show ?thesis
    by simp
qed

section \<open>Running the same batch twice\<close>

text \<open>
  Two runs of one batch are compared record by record with \<open>fetched_at\<close> blanked
  (\<open>erase\<close>). On a store that has every id of the batch, an upsert only overwrites
  the first record with the item's id (\<open>stepE\<close> on the blanked records), and a
  record ends as the last item of the batch with its id (\<open>latest\<close>) says.
\<close>

definition erase :: "post \<Rightarrow> post" where
  "erase r = r\<lparr>fetched_at := 0\<rparr>"

fun replaceFirst :: "('a \<Rightarrow> bool) \<Rightarrow> ('a \<Rightarrow> 'a) \<Rightarrow> 'a list \<Rightarrow> 'a list" where
  "replaceFirst P f [] = []"
| "replaceFirst P f (x # xs) = (if P x then f x # xs else x # replaceFirst P f xs)"

fun latest :: "item list \<Rightarrow> string \<Rightarrow> item option" where
  "latest [] k = None"
| "latest (x # xs) k =
     (case latest xs k of Some y \<Rightarrow> Some y | None \<Rightarrow> if reddit_id x = k then Some x else None)"

definition stepE :: "item \<Rightarrow> post list \<Rightarrow> post list" where
  "stepE x e = replaceFirst (\<lambda>r. reddit_id r = reddit_id x) (\<lambda>r. postData x (post_id r) 0) e"

definition headE :: "item \<Rightarrow> post \<Rightarrow> post" where
  "headE x r = (if reddit_id x = reddit_id r then postData x (post_id r) 0 else r)"

lemma list_update_replaceFirst:
  "findIndex P xs = Some i \<Longrightarrow> xs[i := f (xs ! i)] = replaceFirst P f xs"
  by (induction xs arbitrary: i) (auto split: if_splits)

lemma map_replaceFirst:
  assumes "\<And>x. P x = P' (g x)" "\<And>x. g (f x) = f' (g x)"
  shows "map g (replaceFirst P f xs) = replaceFirst P' f' (map g xs)"
  by (induction xs) (simp_all add: assms)

lemma clock_upsertPost [simp]: "clock (snd (upsertPost p s)) = clock s"
  by (simp add: upsertPost_def Let_def split: option.splits)

lemma reads_upsertPost: "reads s < reads (snd (upsertPost p s))"
  by (simp add: upsertPost_def Let_def split: option.splits)

lemma clock_upsertPosts [simp]: "clock (snd (upsertPosts ps s)) = clock s"
  by (induction ps arbitrary: s) (simp_all add: split_beta)

lemma reads_upsertPosts: "reads s \<le> reads (snd (upsertPosts ps s))"
proof (induction ps arbitrary: s)
  case Nil
  show ?case by simp
next
  case (Cons p ps)
  have "reads s < reads (snd (upsertPost p s))" by (rule reads_upsertPost)
  also have "\<dots> \<le> reads (snd (upsertPosts ps (snd (upsertPost p s))))" by (rule Cons.IH)
  finally show ?case by (simp add: split_beta)
qed

lemma fst_upsertPost_postData:
  "fst (upsertPost p s) = postData p (post_id (fst (upsertPost p s))) (clock s (reads s))"
  by (simp add: upsertPost_def Let_def postData_def split: option.splits)

lemma find_list_update_other:
  "\<not> P y \<Longrightarrow> i < length xs \<Longrightarrow> \<not> P (xs ! i) \<Longrightarrow> find P (xs[i := y]) = find P xs"
  by (induction xs arbitrary: i) (auto split: nat.splits)

lemma getPost_upsertPost_other:
  assumes "k \<noteq> reddit_id p"
  shows "getPost k (snd (upsertPost p s)) = getPost k s"
proof (cases "findIndex (\<lambda>q. reddit_id q = reddit_id p) (posts s)")
  case None
  with assms show ?thesis
    by (auto simp: getPost_def posts_upsertPost find_snoc split: option.splits)
next
  case (Some i)
  then have "i < length (posts s)" "reddit_id (posts s ! i) = reddit_id p"
    by (simp_all add: findIndex_Some_iff)
  with assms Some show ?thesis
    by (simp add: getPost_def posts_upsertPost find_list_update_other)
qed

lemma getPost_upsertPosts_latest:
  "case latest xs k of
     None \<Rightarrow> getPost k (snd (upsertPosts xs s)) = getPost k s
   | Some x \<Rightarrow> \<exists>pid j. reads s \<le> j \<and> j < reads (snd (upsertPosts xs s)) \<and>
       getPost k (snd (upsertPosts xs s)) = Some (postData x pid (clock s j))"
proof (induction xs arbitrary: s)
  case Nil
  show ?case by simp
next
  case (Cons x xs)
  let ?s1 = "snd (upsertPost x s)"
  let ?s2 = "snd (upsertPosts xs ?s1)"
  have s2: "snd (upsertPosts (x # xs) s) = ?s2" by (simp add: split_beta)
  note IH = Cons.IH [of ?s1]
  show ?case
  proof (cases "latest xs k")
    case (Some y)
    with IH obtain pid j where "reads ?s1 \<le> j" "j < reads ?s2"
      "getPost k ?s2 = Some (postData y pid (clock s j))" by auto
    moreover have "reads s \<le> reads ?s1" using reads_upsertPost [of s x] by simp
    ultimately have "\<exists>pid j. reads s \<le> j \<and> j < reads ?s2 \<and>
        getPost k ?s2 = Some (postData y pid (clock s j))"
      by (metis le_trans)
    with Some show ?thesis unfolding s2 by simp
  next
    case None
    with IH have eq: "getPost k ?s2 = getPost k ?s1" by simp
    show ?thesis
    proof (cases "reddit_id x = k")
      case True
      obtain pid where "fst (upsertPost x s) = postData x pid (clock s (reads s))"
        using fst_upsertPost_postData [of x s] by blast
      with eq True have "getPost k ?s2 = Some (postData x pid (clock s (reads s)))"
        using getPost_upsertPost_same [of x s] by simp
      moreover have "reads s < reads ?s2"
        using reads_upsertPost [of s x] reads_upsertPosts [of ?s1 xs] by simp
      ultimately have "\<exists>pid j. reads s \<le> j \<and> j < reads ?s2 \<and>
        getPost k ?s2 = Some (postData x pid (clock s j))"
        by blast
      with None True show ?thesis unfolding s2 by simp
    next
      case False
      then have "getPost k ?s1 = getPost k s"
        using getPost_upsertPost_other [of k x s] by simp
      with eq None False show ?thesis unfolding s2 by simp
    qed
  qed
qed

lemma erase_postData [simp]: "erase (postData x pid t) = postData x pid 0"
  by (simp add: erase_def postData_def)

lemma reddit_id_erase [simp]: "reddit_id (erase r) = reddit_id r"
  by (simp add: erase_def)

lemma post_id_erase [simp]: "post_id (erase r) = post_id r"
  by (simp add: erase_def)

lemma post_id_postData [simp]: "post_id (postData x pid t) = pid"
  by (simp add: postData_def)

lemma erased_upsertPost_present:
  assumes "reddit_id x \<in> reddit_id ` set (posts s)"
  shows "map erase (posts (snd (upsertPost x s))) = stepE x (map erase (posts s))"
proof -
  from assms obtain i where i: "findIndex (\<lambda>q. reddit_id q = reddit_id x) (posts s) = Some i"
    by (cases "findIndex (\<lambda>q. reddit_id q = reddit_id x) (posts s)")
       (auto simp: findIndex_None_iff)
  let ?f = "\<lambda>r. postData x (post_id r) (clock s (reads s))"
  have "posts (snd (upsertPost x s)) = (posts s)[i := ?f (posts s ! i)]"
    using i by (simp add: upsertPost_def Let_def)
  also have "\<dots> = replaceFirst (\<lambda>q. reddit_id q = reddit_id x) ?f (posts s)"
    using i by (rule list_update_replaceFirst)
  finally show ?thesis
    unfolding stepE_def by (simp add: map_replaceFirst [where g = erase])
qed

lemma erased_upsertPosts_present:
  "reddit_id ` set xs \<subseteq> reddit_id ` set (posts s) \<Longrightarrow>
   map erase (posts (snd (upsertPosts xs s))) = fold stepE xs (map erase (posts s))"
proof (induction xs arbitrary: s)
  case Nil
  show ?case by simp
next
  case (Cons x xs)
  let ?s1 = "snd (upsertPost x s)"
  from Cons.prems have x: "reddit_id x \<in> reddit_id ` set (posts s)" by simp
  then have "map reddit_id (posts ?s1) = map reddit_id (posts s)"
    by (simp add: ids_upsertPost)
  then have "reddit_id ` set (posts ?s1) = reddit_id ` set (posts s)"
    by (metis set_map)
  with Cons.prems have "reddit_id ` set xs \<subseteq> reddit_id ` set (posts ?s1)" by simp
  then have "map erase (posts (snd (upsertPosts xs ?s1))) = fold stepE xs (map erase (posts ?s1))"
    by (rule Cons.IH)
  with x show ?case by (simp add: split_beta erased_upsertPost_present)
qed

lemma fold_stepE_Cons:
  "fold stepE xs (r # rs) =
     fold headE xs r # fold stepE (filter (\<lambda>x. reddit_id x \<noteq> reddit_id r) xs) rs"
proof (induction xs arbitrary: r rs)
  case Nil
  show ?case by simp
next
  case (Cons x xs)
  show ?case
  proof (cases "reddit_id x = reddit_id r")
    case True
    then have "stepE x (r # rs) = headE x r # rs" "reddit_id (headE x r) = reddit_id r"
      by (simp_all add: stepE_def headE_def)
    with True Cons.IH [of "headE x r" rs] show ?thesis by simp
  next
    case False
    then have "stepE x (r # rs) = r # stepE x rs" "headE x r = r"
      by (auto simp: stepE_def headE_def)
    with False Cons.IH [of r "stepE x rs"] show ?thesis by simp
  qed
qed

lemma fold_headE:
  "fold headE xs r =
     (case latest xs (reddit_id r) of None \<Rightarrow> r | Some x \<Rightarrow> postData x (post_id r) 0)"
proof (induction xs arbitrary: r)
  case Nil
  show ?case by simp
next
  case (Cons x xs)
  have "reddit_id (headE x r) = reddit_id r" "post_id (headE x r) = post_id r"
    by (simp_all add: headE_def)
  with Cons.IH [of "headE x r"] show ?case
    by (simp add: headE_def split: option.splits)
qed

lemma latest_filter:
  "k \<noteq> c \<Longrightarrow> latest (filter (\<lambda>x. reddit_id x \<noteq> c) xs) k = latest xs k"
  by (induction xs) (auto split: option.splits)

lemma latest_Some_id: "latest xs k = Some x \<Longrightarrow> reddit_id x = k"
  by (induction xs) (auto split: option.splits if_splits)

definition settled :: "item list \<Rightarrow> post list \<Rightarrow> bool" where
  "settled xs e \<longleftrightarrow>
     (\<forall>k x. latest xs k = Some x \<longrightarrow>
        (\<exists>r. find (\<lambda>q. reddit_id q = k) e = Some r \<and> r = postData x (post_id r) 0))"

lemma fold_stepE_settled: "settled xs e \<Longrightarrow> fold stepE xs e = e"
proof (induction e arbitrary: xs)
  case Nil
  show ?case by (induction xs) (simp_all add: stepE_def)
next
  case (Cons r rs)
  let ?ys = "filter (\<lambda>x. reddit_id x \<noteq> reddit_id r) xs"
  have head: "fold headE xs r = r"
  proof (cases "latest xs (reddit_id r)")
    case None
    then show ?thesis by (simp add: fold_headE)
  next
    case (Some x)
    with Cons.prems have "r = postData x (post_id r) 0"
      unfolding settled_def by fastforce
    with Some show ?thesis by (simp add: fold_headE)
  qed
  have "settled ?ys rs"
    unfolding settled_def
  proof (intro allI impI)
    fix k x assume l: "latest ?ys k = Some x"
    have k: "k \<noteq> reddit_id r"
    proof
      assume "k = reddit_id r"
      moreover have "latest ?ys (reddit_id r) = None"
        by (induction xs) (auto split: option.splits)
      ultimately show False using l by simp
    qed
    with l have "latest xs k = Some x" by (simp add: latest_filter)
    with Cons.prems obtain q where "find (\<lambda>q. reddit_id q = k) (r # rs) = Some q"
      "q = postData x (post_id q) 0" unfolding settled_def by blast
    with k show "\<exists>q. find (\<lambda>q. reddit_id q = k) rs = Some q \<and> q = postData x (post_id q) 0"
      by auto
  qed
  then have "fold stepE ?ys rs = rs" by (rule Cons.IH)
  with head show ?case by (simp add: fold_stepE_Cons)
qed

lemma latest_None_iff: "latest xs k = None \<longleftrightarrow> k \<notin> reddit_id ` set xs"
  by (induction xs) (auto split: option.splits)

lemma find_map_erase:
  "find (\<lambda>q. reddit_id q = k) (map erase ps) = map_option erase (find (\<lambda>q. reddit_id q = k) ps)"
  by (induction ps) simp_all

lemma getPost_Some_mem: "getPost k s = Some r \<Longrightarrow> r \<in> set (posts s) \<and> reddit_id r = k"
  unfolding getPost_def by (induction "posts s" arbitrary: s) (auto simp: find_Some_iff nth_mem)

lemma settled_upsertPosts: "settled xs (map erase (posts (snd (upsertPosts xs s))))"
  unfolding settled_def
proof (intro allI impI)
  fix k x assume "latest xs k = Some x"
  with getPost_upsertPosts_latest [where xs = xs and k = k and s = s] obtain pid j
    where "getPost k (snd (upsertPosts xs s)) = Some (postData x pid (clock s j))" by auto
  then have "find (\<lambda>q. reddit_id q = k) (map erase (posts (snd (upsertPosts xs s)))) =
      Some (postData x pid 0)"
    by (simp add: find_map_erase getPost_def)
  then show "\<exists>r. find (\<lambda>q. reddit_id q = k) (map erase (posts (snd (upsertPosts xs s)))) = Some r \<and>
      r = postData x (post_id r) 0"
    by simp
qed

lemma ids_present_upsertPosts:
  "reddit_id ` set xs \<subseteq> reddit_id ` set (posts (snd (upsertPosts xs s)))"
proof
  fix k assume "k \<in> reddit_id ` set xs"
  then obtain x where "latest xs k = Some x"
    using latest_None_iff [of xs k] by (cases "latest xs k") auto
  with getPost_upsertPosts_latest [where xs = xs and k = k and s = s] obtain r
    where "getPost k (snd (upsertPosts xs s)) = Some r" by auto
  then have "r \<in> set (posts (snd (upsertPosts xs s)))" "reddit_id r = k"
    by (simp_all add: getPost_Some_mem)
  then show "k \<in> reddit_id ` set (posts (snd (upsertPosts xs s)))" by blast
qed

lemma erased_upsertPosts_twice:
  "map erase (posts (snd (upsertPosts xs (snd (upsertPosts xs s))))) =
   map erase (posts (snd (upsertPosts xs s)))"
  by (simp add: erased_upsertPosts_present ids_present_upsertPosts fold_stepE_settled
      settled_upsertPosts)

lemma erase_eq_iff: "erase r' = erase r \<longleftrightarrow> r' = r\<lparr>fetched_at := fetched_at r'\<rparr>"
  unfolding erase_def by (cases r, cases r') auto

text \<open>
  C2. Let \<open>s1\<close> be the store after \<open>upsertPosts xs\<close> and \<open>s2\<close> the store after
  \<open>upsertPosts xs\<close> once more. The two hold the same number of records; record by
  record they agree in every field but \<open>fetched_at\<close>; and for each item of the
  batch, the record found under its id in \<open>s2\<close> has as \<open>fetched_at\<close> a clock reading
  made during the second run (the \<open>j\<close>-th reading, with \<open>j\<close> from the number
  of readings made before the second run up to those made by its end).
\<close>

theorem upsertPosts_twice:
  fixes xs :: "item list" and s :: store
  defines "s1 \<equiv> snd (upsertPosts xs s)"
  defines "s2 \<equiv> snd (upsertPosts xs s1)"
  shows "length (posts s2) = length (posts s1) \<and>
         (\<forall>i<length (posts s1). posts s2 ! i = (posts s1 ! i)\<lparr>fetched_at := fetched_at (posts s2 ! i)\<rparr>) \<and>
         (\<forall>x\<in>set xs. \<exists>r j. getPost (reddit_id x) s2 = Some r \<and>
             reads s1 \<le> j \<and> j < reads s2 \<and> fetched_at r = clock s1 j)"
proof -
  have e: "map erase (posts s2) = map erase (posts s1)"
    unfolding s1_def s2_def by (rule erased_upsertPosts_twice)
  then have len: "length (posts s2) = length (posts s1)"
    by (metis length_map)
  have pt: "posts s2 ! i = (posts s1 ! i)\<lparr>fetched_at := fetched_at (posts s2 ! i)\<rparr>"
    if "i < length (posts s1)" for i
  proof -
    from e that len have "erase (posts s2 ! i) = erase (posts s1 ! i)"
      by (metis nth_map)
    then show ?thesis by (simp add: erase_eq_iff)
  qed
  have fa: "\<exists>r j. getPost (reddit_id x) s2 = Some r \<and>
             reads s1 \<le> j \<and> j < reads s2 \<and> fetched_at r = clock s1 j"
    if "x \<in> set xs" for x
  proof -
    from that obtain y where "latest xs (reddit_id x) = Some y"
      using latest_None_iff [of xs "reddit_id x"] by (cases "latest xs (reddit_id x)") auto
    with getPost_upsertPosts_latest [where xs = xs and k = "reddit_id x" and s = s1] obtain pid j
      where "reads s1 \<le> j" "j < reads s2"
        "getPost (reddit_id x) s2 = Some (postData y pid (clock s1 j))"
      unfolding s2_def by auto
    moreover have "fetched_at (postData y pid (clock s1 j)) = clock s1 j"
      by (simp add: postData_def)
    ultimately show ?thesis by blast
  qed
  from len pt fa show ?thesis by blast
qed

theorem upsertPosts_twice_witness:
  "length (posts store_twice) = 2 \<and> length (posts store_once) = 2 \<and>
   posts store_twice ! 0 = (posts store_once ! 0)\<lparr>fetched_at := 1700000007000\<rparr> \<and>
   posts store_twice ! 1 = (posts store_once ! 1)\<lparr>fetched_at := 1700000006000\<rparr> \<and>
   fetched_at (posts store_once ! 0) = 1700000004000 \<and>
   fetched_at (posts store_once ! 1) = 1700000002000 \<and>
   upvotes (posts store_once ! 0) = 7 \<and>
   reads store_once = 5 \<and> reads store_twice = 8"
proof -
  have once: "posts store_once =
      [postData (gh_item 7) (toString36 (nat 1700000001000) @ ''z'') 1700000004000,
       postData (hn_item ''hn_1'') (toString36 (nat 1700000003000) @ ''zz'') 1700000002000]"
    "reads store_once = 5" "clock store_once = (\<lambda>n. 1700000000000 + 1000 * int n)"
    unfolding store_once_def batch1_def
    by (simp_all add: store0_def gh_item_def hn_item_def upsertPost_def Let_def save_def
        postData_def)
  have twice: "posts store_twice =
      [postData (gh_item 7) (toString36 (nat 1700000001000) @ ''z'') 1700000007000,
       postData (hn_item ''hn_1'') (toString36 (nat 1700000003000) @ ''zz'') 1700000006000]"
    "reads store_twice = 8"
    unfolding store_twice_def store_once_def batch1_def
    by (simp_all add: store0_def gh_item_def hn_item_def upsertPost_def Let_def save_def
        postData_def)
  have l: "length (posts store_once) = 2" and
    f: "fetched_at (posts store_twice ! 0) = 1700000007000"
       "fetched_at (posts store_twice ! 1) = 1700000006000"
       "fetched_at (posts store_once ! 0) = 1700000004000"
       "fetched_at (posts store_once ! 1) = 1700000002000"
       "upvotes (posts store_once ! 0) = 7"
    by (simp_all add: once twice postData_def gh_item_def)
  note inst = upsertPosts_twice [of batch1 store0, folded store_once_def store_twice_def]
  from inst l have l2: "length (posts store_twice) = 2" by simp
  from inst have pt: "\<forall>i<length (posts store_once).
      posts store_twice ! i = (posts store_once ! i)\<lparr>fetched_at := fetched_at (posts store_twice ! i)\<rparr>"
    by blast
  from pt [rule_format, of 0] pt [rule_format, of 1] l f
  have "posts store_twice ! 0 = (posts store_once ! 0)\<lparr>fetched_at := 1700000007000\<rparr>"
    "posts store_twice ! 1 = (posts store_once ! 1)\<lparr>fetched_at := 1700000006000\<rparr>"
    by simp_all
  with l l2 f once(2) twice(2) show ?thesis by blast
qed

section \<open>Queries, retention and restore\<close>

text \<open>
  \<open>includes_str h n\<close> is \<open>h.includes(n)\<close>: \<open>n\<close> occurs in \<open>h\<close> as a contiguous run.
\<close>

fun includes_str :: "string \<Rightarrow> string \<Rightarrow> bool" where
  "includes_str [] n = (n = [])"
| "includes_str (c # cs) n = (prefix n (c # cs) \<or> includes_str cs n)"

text \<open>
  The numbers \<open>Math.ceil(total / limit)\<close> can be, for a count \<open>total\<close> and an integer
  \<open>limit\<close>: dividing by zero gives Infinity, or NaN for 0 / 0; a negative \<open>limit\<close>
  gives a negative ceiling or zero. \<open>less_number p n\<close> is the comparison \<open>p < n\<close>, true
  below Infinity and false against NaN.
\<close>

datatype number = Finite int | Infinity | NaN

definition ceil_quot :: "int \<Rightarrow> int \<Rightarrow> number" where
  "ceil_quot n l =
     (if l = 0 then (if n = 0 then NaN else Infinity)
      else Finite (- ((- n) div l)))"

fun less_number :: "int \<Rightarrow> number \<Rightarrow> bool" where
  "less_number p (Finite n) = (p < n)"
| "less_number p Infinity = True"
| "less_number p NaN = False"

text \<open>\<open>Array.prototype.slice\<close> with two integer arguments: a negative index counts from the end.\<close>

definition slice :: "'a list \<Rightarrow> int \<Rightarrow> int \<Rightarrow> 'a list" where
  "slice xs start fin =
     (let len = int (length xs);
          k = (if start < 0 then max (len + start) 0 else min start len);
          final = (if fin < 0 then max (len + fin) 0 else min fin len)
      in take (nat (final - k)) (drop (nat k) xs))"

text \<open>A destructuring default: the value given, or the default when there is none.\<close>

fun orDefault :: "'a \<Rightarrow> 'a option \<Rightarrow> 'a" where
  "orDefault d None = d"
| "orDefault d (Some v) = v"

text \<open>
  The argument of \<open>getPosts\<close>, every field of it optional, and the pagination object of
  its result.
\<close>

record options =
  search_opt :: "string option"
  subreddit_opt :: "string option"
  sortBy_opt :: "string option"
  sortOrder_opt :: "string option"
  page_opt :: "int option"
  limit_opt :: "int option"
  minUpvotes_opt :: "int option"
  daysBack_opt :: "int option"

record pagination =
  page :: int
  limit :: int
  total :: int
  totalPages :: number
  hasNext :: bool
  hasPrev :: bool

text \<open>
  \<open>TimeClip\<close>: a time value more than 8.64e15 ms from the epoch is no date (its time
  value is NaN, \<open>None\<close>). \<open>cutoffDate\<close>: \<open>new Date()\<close> moved back by
  \<open>setDate(getDate() - daysBack)\<close> for an integer \<open>daysBack\<close>, that is by \<open>daysBack\<close>
  calendar days of local time (86400000 ms each), back to an instant and clipped, so a
  \<open>daysBack\<close> that takes the date out of range gives an invalid date. \<open>notOlder\<close> is
  the test \<open>new Date(p.created_at) >= cutoffDate\<close>, false when either date is invalid.
\<close>

definition TimeClip :: "int \<Rightarrow> instant option" where
  "TimeClip t = (if \<bar>t\<bar> \<le> 8640000000000000 then Some t else None)"

definition cutoffDate :: "int \<Rightarrow> store \<Rightarrow> instant option" where
  "cutoffDate daysBack s =
     TimeClip (UTC s (LocalTime s (clock s (reads s)) - daysBack * 86400000))"

definition notOlder :: "instant option \<Rightarrow> post \<Rightarrow> bool" where
  "notOlder cutoff p =
     (case (created_at p, cutoff) of (Some t, Some c) \<Rightarrow> c \<le> t | _ \<Rightarrow> False)"

text \<open>
  The value the comparator of \<open>sort\<close> takes from a record. The date filter has removed
  the records with an invalid \<open>created_at\<close> before the sort.
\<close>

definition sortValue :: "string \<Rightarrow> post \<Rightarrow> int" where
  "sortValue sortBy p =
     (if sortBy = ''upvotes'' then upvotes p
      else if sortBy = ''num_comments'' then num_comments p
      else (case created_at p of Some t \<Rightarrow> t | None \<Rightarrow> 0))"

text \<open>
  The variable \<open>filtered\<close> of \<open>getPosts\<close> after the sort: date window, minimum
  upvotes, subreddit, search term, then a stable sort (\<open>sort\<close> is stable, and so is
  \<open>sort_key\<close>), by descending value when \<open>sortOrder\<close> is \<open>desc\<close>.
\<close>

definition filtered :: "options \<Rightarrow> store \<Rightarrow> post list" where
  "filtered opts s =
     (let search = orDefault [] (search_opt opts);
          subreddit_q = orDefault [] (subreddit_opt opts);
          sortBy = orDefault ''created_at'' (sortBy_opt opts);
          sortOrder = orDefault ''desc'' (sortOrder_opt opts);
          minUpvotes = orDefault 0 (minUpvotes_opt opts);
          daysBack = orDefault 30 (daysBack_opt opts);
          cutoff = cutoffDate daysBack s;
          f1 = filter (notOlder cutoff) (posts s);
          f2 = (if minUpvotes > 0 then filter (\<lambda>p. upvotes p \<ge> minUpvotes) f1 else f1);
          f3 = (if subreddit_q \<noteq> []
                then filter (\<lambda>p. includes_str (toLowerCase s (subreddit p))
                                               (toLowerCase s subreddit_q)) f2
                else f2);
          f4 = (if search \<noteq> []
                then (let searchLower = toLowerCase s search
                      in filter (\<lambda>p. includes_str (toLowerCase s (title p)) searchLower \<or>
                                     includes_str (toLowerCase s (author p)) searchLower \<or>
                                     (content p \<noteq> [] \<and>
                                      includes_str (toLowerCase s (content p)) searchLower)) f3)
                else f3)
      in if sortOrder = ''desc'' then sort_key (\<lambda>p. - sortValue sortBy p) f4
         else sort_key (sortValue sortBy) f4)"

text \<open>\<open>getPosts\<close>: the page of \<open>filtered\<close> asked for, and the pagination data.\<close>

definition getPosts :: "options \<Rightarrow> store \<Rightarrow> (post list \<times> pagination) \<times> store" where
  "getPosts opts s =
     (let page = orDefault 1 (page_opt opts);
          limit = orDefault 20 (limit_opt opts);
          fl = filtered opts s;
          total = int (length fl);
          totalPages = ceil_quot total limit;
          offset = (page - 1) * limit;
          paginated = slice fl offset (offset + limit)
      in ((paginated,
           \<lparr> page = page, limit = limit, total = total, totalPages = totalPages,
             hasNext = less_number page totalPages, hasPrev = (page > 1) \<rparr>),
          s\<lparr>reads := Suc (reads s)\<rparr>))"

text \<open>\<open>deleteOldPosts\<close>: keep the records in the window, save when any was dropped.\<close>

definition deleteOldPosts :: "int option \<Rightarrow> store \<Rightarrow> nat \<times> store" where
  "deleteOldPosts daysBack_arg s =
     (let daysBack = orDefault 30 daysBack_arg;
          cutoff = cutoffDate daysBack s;
          s1 = s\<lparr>reads := Suc (reads s)\<rparr>;
          before = length (posts s1);
          s2 = s1\<lparr>posts := filter (notOlder cutoff) (posts s1)\<rparr>;
          deleted = before - length (posts s2)
      in (deleted, if deleted > 0 then save s2 else s2))"



text \<open>A store of three records, one of them older than thirty days, and the empty options.\<close>

definition old_item :: item where
  "old_item =
     \<lparr> reddit_id = ''devto_7'', title = ''[Dev.to] Claude notes'', author = ''dev'',
       subreddit = ''DevTo'', upvotes = 3, created_at = Some 1690000000000,
       url = ''https://dev.to/dev/claude-notes'', content_in = Some ''notes'',
       num_comments_in = Some 0, source = ''devto'' \<rparr>"

definition store3 :: store where
  "store3 = store0\<lparr>posts :=
     [postData (gh_item 5) ''id1'' 1699999000000,
      postData old_item ''id2'' 1699999000000,
      postData (hn_item ''hn_1'') ''id3'' 1699999000000]\<rparr>"

definition no_options :: options where
  "no_options =
     \<lparr> search_opt = None, subreddit_opt = None, sortBy_opt = None, sortOrder_opt = None,
       page_opt = None, limit_opt = None, minUpvotes_opt = None, daysBack_opt = None \<rparr>"



text \<open>A record whose \<open>created_at\<close> is no date, and the store of three with it added.\<close>

definition undated :: post where
  "undated = postData ((hn_item ''hn_2'')\<lparr>created_at := None\<rparr>) ''id4'' 1699999000000"

definition store_undated :: store where
  "store_undated = store3\<lparr>posts := posts store3 @ [undated]\<rparr>"


subsection \<open>Retention\<close>

lemma filter_same_length: "length (filter P xs) = length xs \<Longrightarrow> filter P xs = xs"
proof (induction xs)
  case Nil
  show ?case by simp
next
  case (Cons x xs)
  have le: "length (filter P xs) \<le> length xs" by (rule length_filter_le)
  show ?case
  proof (cases "P x")
    case True
    with Cons show ?thesis by simp
  next
    case False
    with Cons.prems le show ?thesis by simp
  qed
qed

lemma length_removed:
  "length xs - length (filter P xs) = length (filter (\<lambda>x. \<not> P x) xs)"
  using sum_length_filter_compl [of P xs] by simp

lemma notOlder_iff:
  "notOlder cutoff p \<longleftrightarrow> (\<exists>t c. created_at p = Some t \<and> cutoff = Some c \<and> c \<le> t)"
  by (auto simp: notOlder_def split: option.splits)

lemma set_filtered: "set (filtered opts s) \<subseteq>
    {p \<in> set (posts s). notOlder (cutoffDate (orDefault 30 (daysBack_opt opts)) s) p}"
  by (auto simp: filtered_def Let_def)

lemma set_slice: "set (slice xs a b) \<subseteq> set xs"
  unfolding slice_def Let_def by (meson in_set_dropD in_set_takeD subsetI)

lemma set_getPosts: "set (fst (fst (getPosts opts s))) \<subseteq> set (filtered opts s)"
  by (simp add: getPosts_def Let_def set_slice)

text \<open>
  C5, as the code has it. Let the cutoff be the query time moved back by \<open>daysBack\<close>
  days (30 when none is given), an invalid date when that is out of the range of dates.
  Every record \<open>getPosts\<close> returns has a valid \<open>created_at\<close> that is not before the
  cutoff: a record older than the window is excluded, and so is a record whose
  \<open>created_at\<close> is no date. \<open>deleteOldPosts\<close> keeps, in their order, exactly the
  records with a valid \<open>created_at\<close> not before a valid cutoff, and returns the number of
  the others; when that number is positive and the write succeeds, the backing file
  holds the reduced collection; when it is zero, collection and files are as before.
\<close>

theorem retention_window:
  fixes opts :: options and s :: store and d :: "int option"
  defines "cutoff \<equiv> cutoffDate (orDefault 30 (daysBack_opt opts)) s"
  defines "cutoff' \<equiv> cutoffDate (orDefault 30 d) s"
  defines "r \<equiv> deleteOldPosts d s"
  defines "kept \<equiv> filter (\<lambda>p. \<exists>t c. created_at p = Some t \<and> cutoff' = Some c \<and> c \<le> t) (posts s)"
  shows "(\<forall>p\<in>set (fst (fst (getPosts opts s))).
            \<exists>t c. created_at p = Some t \<and> cutoff = Some c \<and> c \<le> t) \<and>
         cutoff' = TimeClip (UTC s (LocalTime s (clock s (reads s)) - orDefault 30 d * 86400000)) \<and>
         posts (snd r) = kept \<and>
         fst r = length (posts s) - length kept \<and>
         (0 < fst r \<and> write_ok s (dbPath s) \<longrightarrow> files (snd r) (dbPath s) = Some (Json kept)) \<and>
         (fst r = 0 \<longrightarrow> posts (snd r) = posts s \<and> files (snd r) = files s)"
proof -
  have "notOlder cutoff' = (\<lambda>p. \<exists>t c. created_at p = Some t \<and> cutoff' = Some c \<and> c \<le> t)"
    by (rule ext) (rule notOlder_iff)
  then have k: "kept = filter (notOlder cutoff') (posts s)"
    unfolding kept_def by (rule arg_cong [where f = "\<lambda>P. filter P (posts s)", symmetric])
  have a: "\<exists>t c. created_at p = Some t \<and> cutoff = Some c \<and> c \<le> t"
    if "p \<in> set (fst (fst (getPosts opts s)))" for p
  proof -
    from that set_getPosts set_filtered have "notOlder cutoff p" unfolding cutoff_def by blast
    then show ?thesis by (simp add: notOlder_iff)
  qed
  have t: "cutoff' = TimeClip (UTC s (LocalTime s (clock s (reads s)) - orDefault 30 d * 86400000))"
    unfolding cutoff'_def by (simp add: cutoffDate_def)
  have b: "posts (snd r) = kept"
    unfolding k r_def cutoff'_def by (simp add: deleteOldPosts_def Let_def)
  have c: "fst r = length (posts s) - length kept"
    unfolding k r_def cutoff'_def by (simp add: deleteOldPosts_def Let_def)
  have d: "files (snd r) (dbPath s) = Some (Json kept)"
    if "0 < fst r" "write_ok s (dbPath s)"
    using that unfolding k r_def cutoff'_def by (simp add: deleteOldPosts_def Let_def save_def)
  have e: "posts (snd r) = posts s \<and> files (snd r) = files s" if "fst r = 0"
  proof -
    have "length kept \<le> length (posts s)"
      unfolding k by (rule length_filter_le)
    with that c have "length (filter (notOlder cutoff') (posts s)) = length (posts s)"
      unfolding k by linarith
    then have "filter (notOlder cutoff') (posts s) = posts s"
      by (rule filter_same_length)
    moreover from that have "files (snd r) = files s"
      unfolding r_def by (simp add: deleteOldPosts_def Let_def)
    ultimately show ?thesis using b k by simp
  qed
  from a t b c d e show ?thesis by blast
qed

lemma cutoff_store3:
  "cutoffDate 30 store3 = Some 1697408000000" "cutoffDate 1000 store3 = Some 1613600000000"
  "cutoffDate 200000000 store3 = None"
  by (simp_all add: cutoffDate_def TimeClip_def store3_def store0_def)

lemma posts_store3:
  "posts store3 =
     [postData (gh_item 5) ''id1'' 1699999000000,
      postData old_item ''id2'' 1699999000000,
      postData (hn_item ''hn_1'') ''id3'' 1699999000000]"
  by (simp add: store3_def)

lemma created_store3:
  "created_at (postData old_item ''id2'' 1699999000000) = Some 1690000000000"
  "created_at (postData (gh_item 5) ''id1'' 1699999000000) = Some 1699000000000"
  "created_at (postData (hn_item ''hn_1'') ''id3'' 1699999000000) = Some 1699500000000"
  "created_at undated = None"
  by (simp_all add: postData_def old_item_def gh_item_def hn_item_def undated_def)

theorem retention_window_witness:
  "cutoffDate 30 store3 = Some 1697408000000 \<and>
   created_at (postData old_item ''id2'' 1699999000000) = Some 1690000000000 \<and>
   postData old_item ''id2'' 1699999000000 \<in> set (posts store3) \<and>
   postData old_item ''id2'' 1699999000000 \<notin> set (fst (fst (getPosts no_options store3))) \<and>
   fst (deleteOldPosts None store3) = 1 \<and>
   posts (snd (deleteOldPosts None store3)) =
     [postData (gh_item 5) ''id1'' 1699999000000, postData (hn_item ''hn_1'') ''id3'' 1699999000000] \<and>
   write_ok store3 (dbPath store3) \<and>
   files store3 (dbPath store3) = None \<and>
   files (snd (deleteOldPosts None store3)) (dbPath store3) =
     Some (Json [postData (gh_item 5) ''id1'' 1699999000000,
                 postData (hn_item ''hn_1'') ''id3'' 1699999000000]) \<and>
   fst (deleteOldPosts (Some 1000) store3) = 0 \<and>
   files (snd (deleteOldPosts (Some 1000) store3)) = files store3"
proof -
  note cut = cutoff_store3 and ca = created_store3 and st = posts_store3
  have fs: "files store3 (dbPath store3) = None" "write_ok store3 (dbPath store3)"
    by (simp_all add: store3_def store0_def)
  have f30: "filter (\<lambda>p. \<exists>t c. created_at p = Some t \<and> Some 1697408000000 = Some c \<and> c \<le> t)
       (posts store3) =
     [postData (gh_item 5) ''id1'' 1699999000000, postData (hn_item ''hn_1'') ''id3'' 1699999000000]"
    "filter (\<lambda>p. \<exists>t c. created_at p = Some t \<and> Some 1613600000000 = Some c \<and> c \<le> t)
       (posts store3) = posts store3"
    by (simp_all add: st ca)
  have len: "length (posts store3) = 3" by (simp add: st)
  have dflt: "orDefault 30 (daysBack_opt no_options) = 30" "orDefault (30::int) None = 30"
    "orDefault (30::int) (Some 1000) = 1000"
    by (simp_all add: no_options_def)
  note a = retention_window [of no_options store3 None, unfolded dflt cut f30]
  note b = retention_window [of no_options store3 "Some 1000", unfolded dflt cut f30]
  have 1: "postData old_item ''id2'' 1699999000000 \<notin> set (fst (fst (getPosts no_options store3)))"
  proof
    assume "postData old_item ''id2'' 1699999000000 \<in> set (fst (fst (getPosts no_options store3)))"
    with a obtain t c where "created_at (postData old_item ''id2'' 1699999000000) = Some t"
      "Some (1697408000000::int) = Some c" "c \<le> t" by blast
    with ca(1) show False by simp
  qed
  from a have 2: "posts (snd (deleteOldPosts None store3)) =
       [postData (gh_item 5) ''id1'' 1699999000000, postData (hn_item ''hn_1'') ''id3'' 1699999000000]"
    by blast
  from a len have 3: "fst (deleteOldPosts None store3) = 1"
    by simp
  from a 3 fs(2)
  have 4: "files (snd (deleteOldPosts None store3)) (dbPath store3) =
     Some (Json [postData (gh_item 5) ''id1'' 1699999000000,
                 postData (hn_item ''hn_1'') ''id3'' 1699999000000])"
    by simp
  from b len have 5: "fst (deleteOldPosts (Some 1000) store3) = 0" by simp
  with b have 6: "files (snd (deleteOldPosts (Some 1000) store3)) = files store3" by blast
  have 7: "postData old_item ''id2'' 1699999000000 \<in> set (posts store3)"
    by (simp add: st)
  from cut(1) ca(1) 1 2 3 4 5 6 7 fs show ?thesis by blast
qed

text \<open>
  The specification has \<open>deleteOldPosts\<close> remove exactly the records older than the
  window. It also removes a record whose \<open>created_at\<close> is no date, which is not older
  than any window; and with a \<open>daysBack\<close> of 200000000 the cutoff is an invalid date and
  every record goes, also one created long after the query time moved back by that many
  days.
\<close>

theorem deleteOldPosts_removes_more:
  "created_at undated = None \<and>
   undated \<in> set (posts store_undated) \<and>
   cutoffDate 1000 store_undated = Some 1613600000000 \<and>
   undated \<notin> set (posts (snd (deleteOldPosts (Some 1000) store_undated))) \<and>
   postData (gh_item 5) ''id1'' 1699999000000 \<in> set (posts store3) \<and>
   created_at (postData (gh_item 5) ''id1'' 1699999000000) = Some 1699000000000 \<and>
   clock store3 (reads store3) = 1700000000000 \<and>
   (1700000000000::int) - 200000000 * 86400000 \<le> 1699000000000 \<and>
   cutoffDate 200000000 store3 = None \<and>
   posts (snd (deleteOldPosts (Some 200000000) store3)) = []"
proof -
  have u: "posts store_undated = posts store3 @ [undated]"
    "cutoffDate 1000 store_undated = Some 1613600000000"
    by (simp_all add: store_undated_def cutoffDate_def TimeClip_def store3_def store0_def)
  have 1: "posts (snd (deleteOldPosts (Some 1000) store_undated)) =
      filter (notOlder (Some 1613600000000)) (posts store3 @ [undated])"
    by (simp add: deleteOldPosts_def Let_def u)
  have 2: "undated \<notin> set (posts (snd (deleteOldPosts (Some 1000) store_undated)))"
    unfolding 1 by (simp add: notOlder_iff created_store3)
  have 3: "posts (snd (deleteOldPosts (Some 200000000) store3)) =
      filter (notOlder None) (posts store3)"
    by (simp add: deleteOldPosts_def Let_def cutoff_store3)
  have 4: "posts (snd (deleteOldPosts (Some 200000000) store3)) = []"
    unfolding 3 by (simp add: notOlder_iff)
  have 5: "clock store3 (reads store3) = 1700000000000"
    by (simp add: store3_def store0_def)
  have 6: "postData (gh_item 5) ''id1'' 1699999000000 \<in> set (posts store3)"
    "undated \<in> set (posts store_undated)"
    by (simp_all add: posts_store3 u)
  from u(2) 2 4 5 6 created_store3(2,4) cutoff_store3(3) show ?thesis by simp
qed

subsection \<open>Pagination\<close>






subsection \<open>Restore\<close>




section \<open>The aggregator\<close>

text \<open>
  A post as a subreddit listing gives it (\<open>child.data\<close>; the fields are those of the
  source with \<open>_raw\<close> where the name is taken), and what one request for a listing
  comes to: anything thrown inside the \<open>try\<close> block (transport, timeout, an unexpected
  shape), or the posts together with what \<open>Date.now()\<close> reads when they are filtered.
\<close>

record reddit_post =
  id_raw :: string
  title_raw :: string
  selftext :: "string option"
  author_raw :: string
  subreddit_raw :: string
  score :: int
  num_comments_raw :: "int option"
  created_utc :: int
  permalink :: string

datatype response = Throws | Listing "reddit_post list" instant

text \<open>
  What the other adapters resolve to: each catches its own failures, so a failed adapter
  resolves to the empty list. What surrounds the aggregator is a \<open>web\<close>: the runtime,
  the OAuth token \<open>getRedditToken\<close> resolves to, the answer to the \<open>n\<close>-th attempt on
  a URL, and the outcome of each of the four other adapters.
\<close>

datatype fetched = Failed | Fetched "item list"

fun resolved :: "fetched \<Rightarrow> item list" where
  "resolved Failed = []"
| "resolved (Fetched xs) = xs"

record web = runtime +
  token :: "string option"
  respond :: "string \<Rightarrow> nat \<Rightarrow> response"
  hackerNews :: fetched
  gitHub :: fetched
  devTo :: fetched
  anthropicBlog :: fetched

definition ALL_SUBREDDITS :: "string list" where
  "ALL_SUBREDDITS =
     [''ClaudeAI'', ''claude'', ''claudedev'', ''AnthropicAI'',
      ''ClaudeCode'', ''AICoding'', ''vibecoding'', ''cursor_ai'', ''AIdev'',
      ''OpenAI'', ''MachineLearning'', ''LocalLLaMA'', ''artificial'', ''singularity'',
      ''ChatGPT'', ''Bard'', ''perplexity_ai'', ''aipromptprogramming'',
      ''AIAgents'', ''PromptEngineering'',
      ''discordapp'']"

definition ALL_KEYWORDS :: "string list" where
  "ALL_KEYWORDS =
     [''claude'', ''claude code'', ''anthropic'',
      ''openclaw'', ''openclaw.ai'', ''clawhub'',
      ''moltbot'', ''molt bot'', ''moltbook'',
      ''clawdbot'', ''clawd bot'', ''clawd'',
      ''ai coding'', ''ai assistant'', ''ai agent'', ''mcp server'']"

definition DEDICATED_SUBS :: "string set" where
  "DEDICATED_SUBS = {''claude'', ''claudeai'', ''claudedev'', ''anthropicai'', ''claudecode''}"

text \<open>
  The callback of \<open>posts.filter\<close>: inside the thirty-day window, every post of a
  dedicated subreddit, and elsewhere the posts with a keyword in title or body.
\<close>

definition hasKeyword :: "web \<Rightarrow> reddit_post \<Rightarrow> bool" where
  "hasKeyword w p =
     (let titleLower = toLowerCase w (title_raw p);
          bodyLower = toLowerCase w (orDefault [] (selftext p))
      in list_ex (\<lambda>kw. includes_str titleLower (toLowerCase w kw) \<or>
                       includes_str bodyLower (toLowerCase w kw)) ALL_KEYWORDS)"

definition keep :: "web \<Rightarrow> string \<Rightarrow> instant \<Rightarrow> reddit_post \<Rightarrow> bool" where
  "keep w sub now p =
     (let thirtyDaysAgo = now - 30 * 24 * 60 * 60 * 1000;
          postTime = created_utc p * 1000
      in if postTime < thirtyDaysAgo then False
         else if toLowerCase w sub \<in> DEDICATED_SUBS then True
         else hasKeyword w p)"

definition filteredPosts ::
  "web \<Rightarrow> string \<Rightarrow> instant \<Rightarrow> reddit_post list \<Rightarrow> reddit_post list" where
  "filteredPosts w sub now ps = filter (keep w sub now) ps"

text \<open>
  \<open>substring0 n s\<close> is \<open>s.substring(0, n)\<close>, the first \<open>n\<close> code units of \<open>s\<close>: a
  byte that continues a code unit stays with it, any other byte starts the next one.
\<close>

fun substring0 :: "nat \<Rightarrow> string \<Rightarrow> string" where
  "substring0 n [] = []"
| "substring0 n (b # bs) =
     (if 128 \<le> (of_char b :: nat) \<and> (of_char b :: nat) < 192 then b # substring0 n bs
      else (case n of 0 \<Rightarrow> [] | Suc m \<Rightarrow> b # substring0 m bs))"

text \<open>The item made of a post that passed the filter; the body is cut to 1000 code units.\<close>

definition toItem :: "reddit_post \<Rightarrow> item" where
  "toItem p =
     \<lparr> reddit_id = id_raw p,
       title = title_raw p,
       author = author_raw p,
       subreddit = subreddit_raw p,
       upvotes = score p,
       created_at = Some (created_utc p * 1000),
       url = ''https://reddit.com'' @ permalink p,
       content_in = Some (case selftext p of None \<Rightarrow> [] | Some t \<Rightarrow> substring0 1000 t),
       num_comments_in = num_comments_raw p,
       source = ''reddit'' \<rparr>"

definition listingUrl :: "string option \<Rightarrow> string \<Rightarrow> string" where
  "listingUrl tok sub =
     (if tok \<noteq> None \<and> tok \<noteq> Some []
      then ''https://oauth.reddit.com/r/'' @ sub @ ''/new?limit=100''
      else ''https://www.reddit.com/r/'' @ sub @ ''/new.json?limit=100'')"

text \<open>
  The retry loop of \<open>fetchSubredditPosts\<close>, from attempt \<open>attempt\<close> on. Besides the
  items it returns, the model records the number of attempts made and the delays waited (in
  milliseconds), in order.
\<close>

record fetch_trace =
  items :: "item list"
  attempts :: nat
  waits :: "int list"

function attemptFrom :: "web \<Rightarrow> string \<Rightarrow> string option \<Rightarrow> nat \<Rightarrow> nat \<Rightarrow> int list \<Rightarrow> fetch_trace" where
  "attemptFrom w sub tok retries attempt waited =
     (if attempt \<le> retries
      then (case respond w (listingUrl tok sub) attempt of
              Listing ps now \<Rightarrow>
                \<lparr> items = map toItem (filteredPosts w sub now ps), attempts = attempt, waits = waited \<rparr>
            | Throws \<Rightarrow>
                (let delay = 3 ^ attempt * 1000
                 in if attempt < retries
                    then attemptFrom w sub tok retries (Suc attempt) (waited @ [delay])
                    else \<lparr> items = [], attempts = attempt, waits = waited \<rparr>))
      else \<lparr> items = [], attempts = attempt - 1, waits = waited \<rparr>)"
  by pat_completeness auto
termination
  by (relation "measure (\<lambda>(w, sub, tok, retries, attempt, waited). Suc retries - attempt)") auto

declare attemptFrom.simps [simp del]

definition fetchSubredditPosts :: "web \<Rightarrow> string \<Rightarrow> string option \<Rightarrow> nat option \<Rightarrow> fetch_trace" where
  "fetchSubredditPosts w sub tok retries_arg = attemptFrom w sub tok (orDefault 3 retries_arg) 1 []"

text \<open>
  The curated entries; each takes its \<open>created_at\<close> from a clock reading of its own.
  The dash of two titles is the three bytes of its UTF-8 encoding.
\<close>

definition endash :: string where
  "endash = [CHR 0xE2, CHR 0x80, CHR 0x93]"

definition getCuratedResources :: "store \<Rightarrow> item list \<times> store" where
  "getCuratedResources s =
    ([
     \<lparr> reddit_id = ''oc_site'',
       title = ''[OpenClaw] Official Website '' @ endash @ '' openclaw.ai'',
       author = ''openclaw'', subreddit = ''OpenClaw'', upvotes = 9999,
       created_at = Some (clock s (reads s + 0)),
       url = ''https://openclaw.ai'',
       content_in = Some
         ''OpenClaw is a personal AI assistant platform running Claude at home. Supports Telegram, WhatsApp, Discord and more. Skill system, marathon mode, local extensions.'',
       num_comments_in = Some 0, source = ''openclaw'' \<rparr>,
     \<lparr> reddit_id = ''oc_docs'',
       title = ''[OpenClaw] Documentation & Guides'',
       author = ''openclaw'', subreddit = ''OpenClaw'', upvotes = 9998,
       created_at = Some (clock s (reads s + 1)),
       url = ''https://docs.openclaw.ai'',
       content_in = Some
         ''Complete OpenClaw docs: setup, skills, configuration, marathon mode, Android control, Telegram integration, and more.'',
       num_comments_in = Some 0, source = ''openclaw'' \<rparr>,
     \<lparr> reddit_id = ''oc_clawhub'',
       title = ''[ClawHub] OpenClaw Skills Marketplace'',
       author = ''openclaw'', subreddit = ''ClawHub'', upvotes = 9997,
       created_at = Some (clock s (reads s + 2)),
       url = ''https://clawhub.ai'',
       content_in = Some
         ''ClawHub is the skills/plugin marketplace for OpenClaw. Find hundreds of skills: academic research, code debugging, stock prices, and more.'',
       num_comments_in = Some 0, source = ''openclaw'' \<rparr>,
     \<lparr> reddit_id = ''oc_discord'',
       title = ''[OpenClaw] Community Discord Server'',
       author = ''openclaw'', subreddit = ''OpenClaw'', upvotes = 9996,
       created_at = Some (clock s (reads s + 3)),
       url = ''https://discord.com/invite/clawd'',
       content_in = Some
         ''Join the OpenClaw community Discord to get help, share skills, discuss features, and connect with other users.'',
       num_comments_in = Some 0, source = ''openclaw'' \<rparr>,
     \<lparr> reddit_id = ''moltbot_site'',
       title = ''[MoltBot] Official MoltBook '' @ endash @ '' AI Discord Bot'',
       author = ''moltbot'', subreddit = ''MoltBot'', upvotes = 9995,
       created_at = Some (clock s (reads s + 4)),
       url = ''https://moltbook.com'',
       content_in = Some
         ''MoltBot is an AI-powered Discord bot built on Claude. Create, customize, and deploy Claude-based bots in your Discord server.'',
       num_comments_in = Some 0, source = ''moltbot'' \<rparr>,
     \<lparr> reddit_id = ''clawd_site'',
       title = ''[ClawdBot] Claude-powered Telegram & WhatsApp Bot'',
       author = ''openclaw'', subreddit = ''ClawdBot'', upvotes = 9994,
       created_at = Some (clock s (reads s + 5)),
       url = ''https://openclaw.ai'',
       content_in = Some
         ''ClawdBot is the Telegram/WhatsApp interface for OpenClaw. Run Claude AI directly in messaging apps with full skill support and real-time notifications.'',
       num_comments_in = Some 0, source = ''clawdbot'' \<rparr>,
     \<lparr> reddit_id = ''cc_docs'',
       title = ''[Claude Code] Official Claude Code Documentation'',
       author = ''anthropic'', subreddit = ''ClaudeCode'', upvotes = 9993,
       created_at = Some (clock s (reads s + 6)),
       url = ''https://docs.anthropic.com/en/docs/claude-code'',
       content_in = Some
         ''Claude Code is Anthropic's official CLI for Claude. Docs: installation, CLAUDE.md optimisation, tool use, memory management, best practices for AI-assisted development.'',
       num_comments_in = Some 0, source = ''anthropic'' \<rparr>,
     \<lparr> reddit_id = ''api_docs'',
       title = ''[Anthropic] Claude API Documentation'',
       author = ''anthropic'', subreddit = ''AnthropicBlog'', upvotes = 9992,
       created_at = Some (clock s (reads s + 7)),
       url = ''https://docs.anthropic.com'',
       content_in = Some
         ''Official Anthropic API: all Claude models, messages API, tool use, vision, streaming, system prompts, rate limits, Python and TypeScript SDKs.'',
       num_comments_in = Some 0, source = ''anthropic'' \<rparr>
     ],
     s\<lparr>reads := reads s + 8\<rparr>)"

text \<open>
  The deduplicating \<open>filter\<close> with its set \<open>seen\<close>, then the part of \<open>fetchAllPosts\<close>
  after the \<open>await\<close>: concatenate, deduplicate, upsert when there is anything, return the
  unique items. \<open>fetchAllPosts\<close> itself gathers what is awaited first; \<open>redditResults\<close>
  are the lists of the subreddits, in the order of \<open>ALL_SUBREDDITS\<close>.
\<close>

fun dedupe :: "string set \<Rightarrow> item list \<Rightarrow> item list" where
  "dedupe seen [] = []"
| "dedupe seen (p # ps) =
     (if reddit_id p \<in> seen then dedupe seen ps
      else p # dedupe (insert (reddit_id p) seen) ps)"

definition mergeAndStore ::
  "item list \<Rightarrow> item list \<Rightarrow> item list \<Rightarrow> item list \<Rightarrow> item list \<Rightarrow> item list list \<Rightarrow> store
     \<Rightarrow> item list \<times> store" where
  "mergeAndStore hn gh devto blog curated redditResults s =
     (let allPosts = curated @ blog @ hn @ gh @ devto @ concat redditResults;
          uniquePosts = dedupe {} allPosts
      in if length uniquePosts > 0
         then (uniquePosts, snd (upsertPosts uniquePosts s))
         else (uniquePosts, s))"

definition redditResults :: "web \<Rightarrow> string option \<Rightarrow> item list list" where
  "redditResults w tok = map (\<lambda>sub. items (fetchSubredditPosts w sub tok None)) ALL_SUBREDDITS"

definition fetchAllPosts :: "web \<Rightarrow> store \<Rightarrow> item list \<times> store" where
  "fetchAllPosts w s =
     (let tok = token w;
          rr = redditResults w tok;
          hn = resolved (hackerNews w);
          gh = resolved (gitHub w);
          devto = resolved (devTo w);
          blog = resolved (anthropicBlog w);
          (curated, s1) = getCuratedResources s
      in mergeAndStore hn gh devto blog curated rr s1)"

subsection \<open>Facts about the curated entries and the deduplication\<close>

lemma curated_ids:
  "map reddit_id (fst (getCuratedResources s)) =
     [''oc_site'', ''oc_docs'', ''oc_clawhub'', ''oc_discord'', ''moltbot_site'', ''clawd_site'',
      ''cc_docs'', ''api_docs'']"
  by (simp add: getCuratedResources_def)

text \<open>
  Two posts, one without and one with a keyword; a network on which everything fails, and
  one on which every subreddit answers with the two posts.
\<close>

definition post_hello :: reddit_post where
  "post_hello =
     \<lparr> id_raw = ''t3_a1'', title_raw = ''Hello world'', selftext = None, author_raw = ''u1'',
       subreddit_raw = ''OpenAI'', score = 4, num_comments_raw = Some 2,
       created_utc = 1699900000, permalink = ''/r/OpenAI/comments/a1/hello_world/'' \<rparr>"

definition post_claude :: reddit_post where
  "post_claude =
     \<lparr> id_raw = ''t3_b2'', title_raw = ''Trying CLAUDE Code today'', selftext = Some ''notes'',
       author_raw = ''u2'', subreddit_raw = ''OpenAI'', score = 12, num_comments_raw = None,
       created_utc = 1699950000, permalink = ''/r/OpenAI/comments/b2/trying/'' \<rparr>"

definition web_down :: web where
  "web_down =
     \<lparr> toLowerCase = asciiLower,
       token = None, respond = (\<lambda>url attempt. Throws),
       hackerNews = Failed, gitHub = Failed, devTo = Failed, anthropicBlog = Failed \<rparr>"

definition web_up :: web where
  "web_up =
     \<lparr> toLowerCase = asciiLower,
       token = None,
       respond = (\<lambda>url attempt. Listing [post_hello, post_claude] 1700000000000),
       hackerNews = Failed, gitHub = Failed, devTo = Failed, anthropicBlog = Failed \<rparr>"

lemma lower_web_up [simp]: "toLowerCase web_up = asciiLower"
  by (simp add: web_up_def)




lemma lower_trying: "asciiLower ''Trying CLAUDE Code today'' = ''trying claude code today''"
  by code_simp



lemma hasKeyword_claude: "hasKeyword web_up post_claude"
proof -
  have "includes_str ''trying claude code today'' (asciiLower ''claude'')"
    by code_simp
  moreover have "''claude'' \<in> set ALL_KEYWORDS"
    by (simp add: ALL_KEYWORDS_def)
  ultimately show ?thesis
    unfolding hasKeyword_def Let_def list_ex_iff
    by (auto simp: post_claude_def lower_trying)
qed

subsection \<open>The relevance filter\<close>







subsection \<open>Retries\<close>

lemma fetchSubredditPosts_cases:
  "fetchSubredditPosts w sub tok None =
     (case respond w (listingUrl tok sub) 1 of
        Listing ps now \<Rightarrow> \<lparr> items = map toItem (filteredPosts w sub now ps), attempts = 1, waits = [] \<rparr>
      | Throws \<Rightarrow>
         (case respond w (listingUrl tok sub) 2 of
            Listing ps now \<Rightarrow>
              \<lparr> items = map toItem (filteredPosts w sub now ps), attempts = 2, waits = [3000] \<rparr>
          | Throws \<Rightarrow>
             (case respond w (listingUrl tok sub) 3 of
                Listing ps now \<Rightarrow>
                  \<lparr> items = map toItem (filteredPosts w sub now ps), attempts = 3,
                    waits = [3000, 9000] \<rparr>
              | Throws \<Rightarrow> \<lparr> items = [], attempts = 3, waits = [3000, 9000] \<rparr>)))"
  by (simp add: fetchSubredditPosts_def
      attemptFrom.simps [of w sub tok "Suc (Suc (Suc 0))" "Suc 0"]
      attemptFrom.simps [of w sub tok "Suc (Suc (Suc 0))" "Suc (Suc 0)"]
      attemptFrom.simps [of w sub tok "Suc (Suc (Suc 0))" "Suc (Suc (Suc 0))"]
      numeral_2_eq_2 numeral_3_eq_3 Let_def split: response.splits)

text \<open>
  C8, as the code has it. \<open>fetchSubredditPosts\<close> with the default of three retries
  makes between one and three attempts, every attempt before the last one made having
  failed; the delays it waits are \<open>3 ^ k\<close> seconds after the \<open>k\<close>-th failure for each
  failure that another attempt follows, so 3 s and 9 s at most; and when all three
  attempts fail it returns the empty list, having waited 3 s and 9 s and nothing after
  the third failure.
\<close>

theorem fetchSubredditPosts_backoff:
  fixes w :: web and sub :: string and tok :: "string option"
  defines "r \<equiv> fetchSubredditPosts w sub tok None"
  shows "1 \<le> attempts r \<and> attempts r \<le> 3 \<and>
         (\<forall>k\<in>{1..<attempts r}. respond w (listingUrl tok sub) k = Throws) \<and>
         waits r = map (\<lambda>k. 3 ^ k * 1000) [1..<attempts r] \<and>
         ((\<forall>k\<in>{1..3}. respond w (listingUrl tok sub) k = Throws) \<longrightarrow>
            items r = [] \<and> attempts r = 3 \<and> waits r = [3000, 9000])"
proof -
  have u: "[Suc 0..<2] = [Suc 0]" "[Suc 0..<3] = [Suc 0, 2]" "{Suc 0..<2} = {Suc 0}"
    "{Suc 0..<3} = {Suc 0, 2}" "{Suc 0..3} = {Suc 0, 2, 3}"
    by (auto simp: upt_rec)
  show ?thesis
    unfolding r_def fetchSubredditPosts_cases
    by (simp add: u split: response.splits)
qed

theorem fetchSubredditPosts_backoff_witness:
  "respond web_down (listingUrl None ''OpenAI'') 1 = Throws \<and>
   respond web_down (listingUrl None ''OpenAI'') 2 = Throws \<and>
   respond web_down (listingUrl None ''OpenAI'') 3 = Throws \<and>
   items (fetchSubredditPosts web_down ''OpenAI'' None None) = [] \<and>
   attempts (fetchSubredditPosts web_down ''OpenAI'' None None) = 3 \<and>
   waits (fetchSubredditPosts web_down ''OpenAI'' None None) = [3000, 9000] \<and>
   attempts (fetchSubredditPosts web_up ''OpenAI'' None None) = 1 \<and>
   waits (fetchSubredditPosts web_up ''OpenAI'' None None) = []"
proof -
  have d: "respond web_down (listingUrl None ''OpenAI'') k = Throws" for k
    by (simp add: web_down_def)
  have u: "attempts (fetchSubredditPosts web_up ''OpenAI'' None None) = 1"
    "waits (fetchSubredditPosts web_up ''OpenAI'' None None) = []"
    by (simp_all add: fetchSubredditPosts_cases web_up_def)
  have "\<forall>k\<in>{1..3}. respond web_down (listingUrl None ''OpenAI'') k = Throws"
    using d by simp
  with fetchSubredditPosts_backoff [where w = web_down and tok = None and sub = "''OpenAI''"]
  have "items (fetchSubredditPosts web_down ''OpenAI'' None None) = [] \<and>
      attempts (fetchSubredditPosts web_down ''OpenAI'' None None) = 3 \<and>
      waits (fetchSubredditPosts web_down ''OpenAI'' None None) = [3000, 9000]"
    by blast
  with d u show ?thesis by simp
qed

text \<open>
  The specification reads as if a wait of \<open>3 ^ 3\<close> seconds followed the third failure.
  With every attempt failing, three attempts are made and the waits are those after the
  first and the second failure only.
\<close>

theorem no_wait_after_third_failure:
  "respond web_down (listingUrl None ''OpenAI'') 3 = Throws \<and>
   attempts (fetchSubredditPosts web_down ''OpenAI'' None None) = 3 \<and>
   waits (fetchSubredditPosts web_down ''OpenAI'' None None) = [3 ^ 1 * 1000, 3 ^ 2 * 1000] \<and>
   3 ^ 3 * 1000 \<notin> set (waits (fetchSubredditPosts web_down ''OpenAI'' None None))"
  by (simp add: fetchSubredditPosts_cases web_down_def)

lemma dedupe_ids: "reddit_id ` set (dedupe seen xs) = reddit_id ` set xs - seen"
  by (induction xs arbitrary: seen) auto

lemma dedupe_distinct: "distinct (map reddit_id (dedupe seen xs))"
proof (induction xs arbitrary: seen)
  case Nil
  show ?case by simp
next
  case (Cons p ps)
  have "reddit_id p \<notin> reddit_id ` set (dedupe (insert (reddit_id p) seen) ps)"
    by (simp add: dedupe_ids)
  with Cons.IH show ?case by simp
qed

lemma dedupe_subseq: "subseq (dedupe seen xs) xs"
  by (induction xs arbitrary: seen) (simp_all add: list_emb_Cons)

lemma dedupe_find:
  "find (\<lambda>p. reddit_id p = k) (dedupe seen xs) =
     (if k \<in> seen then None else find (\<lambda>p. reddit_id p = k) xs)"
  by (induction xs arbitrary: seen) auto

lemma dedupe_append:
  "dedupe seen (xs @ ys) = dedupe seen xs @ dedupe (seen \<union> reddit_id ` set xs) ys"
  by (induction xs arbitrary: seen) (simp_all add: insert_absorb)

lemma dedupe_same:
  "distinct (map reddit_id xs) \<Longrightarrow> reddit_id ` set xs \<inter> seen = {} \<Longrightarrow> dedupe seen xs = xs"
proof (induction xs arbitrary: seen)
  case Nil
  show ?case by simp
next
  case (Cons p ps)
  from Cons.prems have "reddit_id ` set ps \<inter> insert (reddit_id p) seen = {}" by auto
  moreover from Cons.prems have "distinct (map reddit_id ps)" by simp
  ultimately have "dedupe (insert (reddit_id p) seen) ps = ps" by (rule Cons.IH [rotated])
  with Cons.prems show ?case by simp
qed

lemma curated_length: "length (fst (getCuratedResources s)) = 8"
  using arg_cong [OF curated_ids [of s], of length] by simp

lemma dedupe_curated: "dedupe {} (fst (getCuratedResources s)) = fst (getCuratedResources s)"
  by (rule dedupe_same) (simp_all add: curated_ids)

lemma snd_getCuratedResources: "snd (getCuratedResources s) = s\<lparr>reads := reads s + 8\<rparr>"
  by (simp add: getCuratedResources_def)

lemma fst_mergeAndStore:
  "fst (mergeAndStore hn gh devto blog curated rr s) =
     dedupe {} (curated @ blog @ hn @ gh @ devto @ concat rr)"
  by (simp add: mergeAndStore_def Let_def)

lemma fetchAllPosts_unfold:
  "fetchAllPosts w s =
     mergeAndStore (resolved (hackerNews w)) (resolved (gitHub w)) (resolved (devTo w))
       (resolved (anthropicBlog w)) (fst (getCuratedResources s))
       (redditResults w (token w)) (snd (getCuratedResources s))"
  by (simp add: fetchAllPosts_def Let_def split_beta)

lemma fetchAllPosts_starts_curated:
  "\<exists>rest. fst (fetchAllPosts w s) = fst (getCuratedResources s) @ rest"
  by (simp add: fetchAllPosts_unfold fst_mergeAndStore dedupe_append [of _ "fst (getCuratedResources s)"]
      dedupe_curated)

lemma fetchSubredditPosts_all_fail:
  assumes "\<forall>k\<in>{1..3}. respond w (listingUrl tok sub) k = Throws"
  shows "items (fetchSubredditPosts w sub tok None) = []"
proof -
  from assms have "respond w (listingUrl tok sub) 1 = Throws"
    "respond w (listingUrl tok sub) 2 = Throws" "respond w (listingUrl tok sub) 3 = Throws"
    by simp_all
  then show ?thesis by (simp add: fetchSubredditPosts_cases)
qed

lemma redditResults_all_fail:
  assumes "\<forall>sub\<in>set ALL_SUBREDDITS. \<forall>k\<in>{1..3}. respond w (listingUrl tok sub) k = Throws"
  shows "concat (redditResults w tok) = []"
proof -
  from assms have "\<forall>sub\<in>set ALL_SUBREDDITS. items (fetchSubredditPosts w sub tok None) = []"
    by (simp add: fetchSubredditPosts_all_fail)
  then show ?thesis by (simp add: redditResults_def)
qed

lemma fetchAllPosts_only_curated:
  assumes "anthropicBlog w = Failed" "hackerNews w = Failed" "gitHub w = Failed" "devTo w = Failed"
    "concat (redditResults w (token w)) = []"
  shows "fst (fetchAllPosts w s) = fst (getCuratedResources s)"
proof -
  have "fst (fetchAllPosts w s) =
      dedupe {} (fst (getCuratedResources s) @ resolved (anthropicBlog w) @
        resolved (hackerNews w) @ resolved (gitHub w) @ resolved (devTo w) @
        concat (redditResults w (token w)))"
    by (simp add: fetchAllPosts_unfold fst_mergeAndStore)
  then show ?thesis
    unfolding assms by (simp add: dedupe_curated)
qed

subsection \<open>The result of a cycle\<close>

text \<open>
  C4, as the code has it. The result of \<open>fetchAllPosts\<close> is the deduplication of the
  concatenation, in this order, of the curated entries, the blog, Hacker News, GitHub,
  Dev.to and the subreddits' lists, an adapter that failed adding nothing. Its ids are
  pairwise different, it keeps the order of the concatenation, and under every id it has
  the first item of the concatenation with that id. The eight curated entries are always
  its first eight items: when every adapter fails (the four others, and all three
  attempts on every subreddit) the result is the curated entries, not the empty list.
\<close>

theorem fetchAllPosts_result:
  fixes w :: web and s :: store
  defines "curated \<equiv> fst (getCuratedResources s)"
  defines "allPosts \<equiv> curated @ resolved (anthropicBlog w) @ resolved (hackerNews w) @
      resolved (gitHub w) @ resolved (devTo w) @ concat (redditResults w (token w))"
  defines "result \<equiv> fst (fetchAllPosts w s)"
  shows "result = dedupe {} allPosts \<and>
         distinct (map reddit_id result) \<and>
         subseq result allPosts \<and>
         (\<forall>k. find (\<lambda>p. reddit_id p = k) result = find (\<lambda>p. reddit_id p = k) allPosts) \<and>
         length curated = 8 \<and> take 8 result = curated \<and>
         (anthropicBlog w = Failed \<and> hackerNews w = Failed \<and> gitHub w = Failed \<and>
          devTo w = Failed \<and>
          (\<forall>sub\<in>set ALL_SUBREDDITS. \<forall>k\<in>{1..3}.
             respond w (listingUrl (token w) sub) k = Throws) \<longrightarrow>
          result = curated)"
proof -
  have r: "result = dedupe {} allPosts"
    unfolding result_def allPosts_def curated_def
    by (simp add: fetchAllPosts_unfold fst_mergeAndStore)
  have len: "length curated = 8"
    unfolding curated_def by (rule curated_length)
  obtain rest where "result = curated @ rest"
    unfolding result_def curated_def using fetchAllPosts_starts_curated by blast
  with len have tk: "take 8 result = curated" by simp
  have fail: "result = curated"
    if "anthropicBlog w = Failed" "hackerNews w = Failed" "gitHub w = Failed" "devTo w = Failed"
      "\<forall>sub\<in>set ALL_SUBREDDITS. \<forall>k\<in>{1..3}. respond w (listingUrl (token w) sub) k = Throws"
    unfolding result_def curated_def
    using that by (intro fetchAllPosts_only_curated redditResults_all_fail)
  from r tk len fail show ?thesis
    by (simp add: dedupe_distinct dedupe_subseq dedupe_find)
qed

text \<open>
  A network on which Hacker News and Dev.to answer (with an id of a curated entry, and
  one id twice) and everything else fails.
\<close>

definition web_mix :: web where
  "web_mix =
     \<lparr> toLowerCase = asciiLower,
       token = None, respond = (\<lambda>url attempt. Throws),
       hackerNews = Fetched [hn_item ''hn_1'', hn_item ''oc_site''], gitHub = Failed,
       devTo = Fetched [old_item, hn_item ''hn_1''], anthropicBlog = Failed \<rparr>"

lemma web_down_reddit: "concat (redditResults web_down (token web_down)) = []"
  by (rule redditResults_all_fail) (simp add: web_down_def)

lemma curated_id_set:
  "reddit_id ` set (fst (getCuratedResources s)) =
     {''oc_site'', ''oc_docs'', ''oc_clawhub'', ''oc_discord'', ''moltbot_site'', ''clawd_site'',
      ''cc_docs'', ''api_docs''}"
  using arg_cong [OF curated_ids [of s], of set] by simp

theorem fetchAllPosts_result_witness:
  "anthropicBlog web_down = Failed \<and> hackerNews web_down = Failed \<and> gitHub web_down = Failed \<and>
   devTo web_down = Failed \<and> concat (redditResults web_down (token web_down)) = [] \<and>
   fst (fetchAllPosts web_down store0) = fst (getCuratedResources store0) \<and>
   length (fst (getCuratedResources store0)) = 8 \<and>
   fst (fetchAllPosts web_mix store0) =
     fst (getCuratedResources store0) @ [hn_item ''hn_1'', old_item] \<and>
   take 8 (fst (fetchAllPosts web_mix store0)) = fst (getCuratedResources store0)"
proof -
  have d: "anthropicBlog web_down = Failed" "hackerNews web_down = Failed"
    "gitHub web_down = Failed" "devTo web_down = Failed"
    by (simp_all add: web_down_def)
  have t: "\<forall>sub\<in>set ALL_SUBREDDITS. \<forall>k\<in>{1..3}.
      respond web_down (listingUrl (token web_down) sub) k = Throws"
    by (simp add: web_down_def)
  have rr: "concat (redditResults web_mix (token web_mix)) = []"
    by (rule redditResults_all_fail) (simp add: web_mix_def)
  have "fst (fetchAllPosts web_mix store0) =
      dedupe {} (fst (getCuratedResources store0) @ resolved (anthropicBlog web_mix) @
        resolved (hackerNews web_mix) @ resolved (gitHub web_mix) @ resolved (devTo web_mix) @
        concat (redditResults web_mix (token web_mix)))"
    by (simp add: fetchAllPosts_unfold fst_mergeAndStore)
  then have m: "fst (fetchAllPosts web_mix store0) =
      fst (getCuratedResources store0) @ [hn_item ''hn_1'', old_item]"
    unfolding rr
    by (simp add: web_mix_def dedupe_append [of _ "fst (getCuratedResources store0)"]
        dedupe_curated curated_id_set hn_item_def old_item_def)
  from fetchAllPosts_result [where w = web_down and s = store0] d t
  have a: "fst (fetchAllPosts web_down store0) = fst (getCuratedResources store0)"
    "length (fst (getCuratedResources store0)) = 8"
    by blast+
  from fetchAllPosts_result [where w = web_mix and s = store0]
  have b: "take 8 (fst (fetchAllPosts web_mix store0)) = fst (getCuratedResources store0)"
    by blast
  from a b d m web_down_reddit show ?thesis by blast
qed

text \<open>
  The specification has a cycle in which no adapter succeeds end with an empty result.
  With every adapter failing, the result is the eight curated entries.
\<close>

theorem all_adapters_failed_result:
  "anthropicBlog web_down = Failed \<and> hackerNews web_down = Failed \<and> gitHub web_down = Failed \<and>
   devTo web_down = Failed \<and> concat (redditResults web_down (token web_down)) = [] \<and>
   map reddit_id (fst (fetchAllPosts web_down store0)) =
     [''oc_site'', ''oc_docs'', ''oc_clawhub'', ''oc_discord'', ''moltbot_site'', ''clawd_site'',
      ''cc_docs'', ''api_docs''] \<and>
   fst (fetchAllPosts web_down store0) \<noteq> []"
proof -
  have d: "anthropicBlog web_down = Failed" "hackerNews web_down = Failed"
    "gitHub web_down = Failed" "devTo web_down = Failed"
    by (simp_all add: web_down_def)
  have r: "fst (fetchAllPosts web_down store0) = fst (getCuratedResources store0)"
    using d web_down_reddit by (rule fetchAllPosts_only_curated)
  have "length (fst (fetchAllPosts web_down store0)) = 8"
    unfolding r by (rule curated_length)
  then have "fst (fetchAllPosts web_down store0) \<noteq> []" by auto
  with d r web_down_reddit show ?thesis by (simp add: curated_ids)
qed

subsection \<open>The store write of a cycle\<close>

lemma ids_upsertPosts_fresh:
  "distinct (map reddit_id xs) \<Longrightarrow> reddit_id ` set xs \<inter> reddit_id ` set (posts s) = {} \<Longrightarrow>
   map reddit_id (posts (snd (upsertPosts xs s))) = map reddit_id (posts s) @ map reddit_id xs"
proof (induction xs arbitrary: s)
  case Nil
  show ?case by simp
next
  case (Cons x xs)
  let ?s1 = "snd (upsertPost x s)"
  from Cons.prems have x: "reddit_id x \<notin> reddit_id ` set (posts s)" by auto
  then have ids: "map reddit_id (posts ?s1) = map reddit_id (posts s) @ [reddit_id x]"
    by (simp add: ids_upsertPost)
  have "set (map reddit_id (posts ?s1)) = set (map reddit_id (posts s) @ [reddit_id x])"
    by (simp only: ids)
  then have "reddit_id ` set (posts ?s1) = reddit_id ` set (posts s) \<union> {reddit_id x}"
    by simp
  with Cons.prems have "reddit_id ` set xs \<inter> reddit_id ` set (posts ?s1) = {}" by auto
  moreover from Cons.prems have "distinct (map reddit_id xs)" by simp
  ultimately have "map reddit_id (posts (snd (upsertPosts xs ?s1))) =
      map reddit_id (posts ?s1) @ map reddit_id xs"
    by (rule Cons.IH [rotated])
  with ids show ?case by (simp add: split_beta)
qed

lemma dbPath_upsertPost [simp]: "dbPath (snd (upsertPost p s)) = dbPath s"
  by (simp add: upsertPost_def Let_def save_def split: option.splits)

lemma write_ok_upsertPost [simp]: "write_ok (snd (upsertPost p s)) = write_ok s"
  by (simp add: upsertPost_def Let_def save_def split: option.splits)

lemma files_upsertPost:
  "write_ok s (dbPath s) \<Longrightarrow>
   files (snd (upsertPost p s)) (dbPath s) = Some (Json (posts (snd (upsertPost p s))))"
  by (simp add: upsertPost_def Let_def save_def split: option.splits)

lemma files_upsertPosts:
  "xs \<noteq> [] \<Longrightarrow> write_ok s (dbPath s) \<Longrightarrow>
   files (snd (upsertPosts xs s)) (dbPath s) = Some (Json (posts (snd (upsertPosts xs s))))"
proof (induction xs arbitrary: s)
  case Nil
  then show ?case by simp
next
  case (Cons x xs)
  let ?s1 = "snd (upsertPost x s)"
  show ?case
  proof (cases "xs = []")
    case True
    with Cons.prems show ?thesis by (simp add: split_beta files_upsertPost)
  next
    case False
    moreover from Cons.prems have "write_ok ?s1 (dbPath ?s1)" by simp
    ultimately have "files (snd (upsertPosts xs ?s1)) (dbPath ?s1) =
        Some (Json (posts (snd (upsertPosts xs ?s1))))"
      by (rule Cons.IH)
    then show ?thesis by (simp add: split_beta)
  qed
qed

lemma posts_upsertPosts_nonempty: "xs \<noteq> [] \<Longrightarrow> posts (snd (upsertPosts xs s)) \<noteq> []"
  using ids_present_upsertPosts [of xs s] by (cases xs) auto

lemma fetchAllPosts_nonempty: "fst (fetchAllPosts w s) \<noteq> []"
proof -
  obtain rest where "fst (fetchAllPosts w s) = fst (getCuratedResources s) @ rest"
    using fetchAllPosts_starts_curated by blast
  moreover have "fst (getCuratedResources s) \<noteq> []"
    using curated_length [of s] by auto
  ultimately show ?thesis by simp
qed

lemma snd_fetchAllPosts:
  "snd (fetchAllPosts w s) =
     snd (upsertPosts (fst (fetchAllPosts w s)) (snd (getCuratedResources s)))"
proof -
  have "fst (fetchAllPosts w s) \<noteq> []" by (rule fetchAllPosts_nonempty)
  then have "0 < length (dedupe {} (fst (getCuratedResources s) @ resolved (anthropicBlog w) @
        resolved (hackerNews w) @ resolved (gitHub w) @ resolved (devTo w) @
        concat (redditResults w (token w))))"
    by (simp add: fetchAllPosts_unfold fst_mergeAndStore)
  then show ?thesis
    by (simp add: fetchAllPosts_unfold mergeAndStore_def Let_def)
qed

text \<open>
  C10, as the code has it. The part of \<open>fetchAllPosts\<close> after the \<open>await\<close> leaves the
  store untouched (collection, backing file and all) when the deduplicated set is empty:
  \<open>upsertPosts\<close> is not called. But no cycle of \<open>fetchAllPosts\<close> gets there: its
  result is never empty, since the curated entries are part of it, so every cycle passes
  its result to \<open>upsertPosts\<close>, the collection is not empty afterwards, and (when the
  write succeeds) the backing file holds the collection.
\<close>

theorem fetchAllPosts_store_write:
  "(dedupe {} (curated @ blog @ hn @ gh @ devto @ concat rr) = [] \<longrightarrow>
      mergeAndStore hn gh devto blog curated rr s = ([], s)) \<and>
   fst (fetchAllPosts w s) \<noteq> [] \<and>
   snd (fetchAllPosts w s) =
     snd (upsertPosts (fst (fetchAllPosts w s)) (snd (getCuratedResources s))) \<and>
   posts (snd (fetchAllPosts w s)) \<noteq> [] \<and>
   (write_ok s (dbPath s) \<longrightarrow>
      files (snd (fetchAllPosts w s)) (dbPath s) = Some (Json (posts (snd (fetchAllPosts w s)))))"
proof -
  have a: "mergeAndStore hn gh devto blog curated rr s = ([], s)"
    if "dedupe {} (curated @ blog @ hn @ gh @ devto @ concat rr) = []"
    using that by (simp add: mergeAndStore_def Let_def)
  have ne: "fst (fetchAllPosts w s) \<noteq> []" by (rule fetchAllPosts_nonempty)
  have b: "posts (snd (fetchAllPosts w s)) \<noteq> []"
    unfolding snd_fetchAllPosts using ne by (rule posts_upsertPosts_nonempty)
  have c: "files (snd (fetchAllPosts w s)) (dbPath s) = Some (Json (posts (snd (fetchAllPosts w s))))"
    if "write_ok s (dbPath s)"
  proof -
    let ?s1 = "snd (getCuratedResources s)"
    from that have "write_ok ?s1 (dbPath ?s1)" by (simp add: snd_getCuratedResources)
    with ne have "files (snd (upsertPosts (fst (fetchAllPosts w s)) ?s1)) (dbPath ?s1) =
        Some (Json (posts (snd (upsertPosts (fst (fetchAllPosts w s)) ?s1))))"
      by (rule files_upsertPosts)
    then show ?thesis
      using snd_fetchAllPosts [of w s] by (simp add: snd_getCuratedResources)
  qed
  from a ne b c snd_fetchAllPosts [of w s] show ?thesis by blast
qed

theorem fetchAllPosts_store_write_witness:
  "dedupe {} ([] @ [] @ [] @ [] @ [] @ concat []) = [] \<and>
   mergeAndStore [] [] [] [] [] [] store3 = ([], store3) \<and>
   fst (fetchAllPosts web_mix store3) \<noteq> [] \<and>
   posts (snd (fetchAllPosts web_mix store3)) \<noteq> [] \<and>
   write_ok store3 (dbPath store3) \<and>
   files store3 (dbPath store3) = None \<and>
   files (snd (fetchAllPosts web_mix store3)) (dbPath store3) =
     Some (Json (posts (snd (fetchAllPosts web_mix store3))))"
proof -
  have e: "dedupe {} ([] @ [] @ [] @ [] @ [] @ concat []) = []" by simp
  have w: "write_ok store3 (dbPath store3)" "files store3 (dbPath store3) = None"
    by (simp_all add: store3_def store0_def)
  from fetchAllPosts_store_write [of "[]" "[]" "[]" "[]" "[]" "[]" store3 web_mix] e w
  show ?thesis by blast
qed

text \<open>
  The failure of every adapter is not a case of an empty set and of no store write: with
  every adapter failing on an empty store, the cycle leaves the eight curated entries in
  the collection and in the backing file.
\<close>

theorem all_adapters_failed_store_written:
  "anthropicBlog web_down = Failed \<and> hackerNews web_down = Failed \<and> gitHub web_down = Failed \<and>
   devTo web_down = Failed \<and> concat (redditResults web_down (token web_down)) = [] \<and>
   posts store0 = [] \<and> files store0 (dbPath store0) = None \<and>
   map reddit_id (posts (snd (fetchAllPosts web_down store0))) =
     [''oc_site'', ''oc_docs'', ''oc_clawhub'', ''oc_discord'', ''moltbot_site'', ''clawd_site'',
      ''cc_docs'', ''api_docs''] \<and>
   files (snd (fetchAllPosts web_down store0)) (dbPath store0) =
     Some (Json (posts (snd (fetchAllPosts web_down store0))))"
proof -
  have d: "anthropicBlog web_down = Failed" "hackerNews web_down = Failed"
    "gitHub web_down = Failed" "devTo web_down = Failed"
    by (simp_all add: web_down_def)
  have s0: "posts store0 = []" "files store0 (dbPath store0) = None" "write_ok store0 (dbPath store0)"
    by (simp_all add: store0_def)
  let ?s1 = "snd (getCuratedResources store0)"
  let ?c = "fst (getCuratedResources store0)"
  have r: "fst (fetchAllPosts web_down store0) = ?c"
    using d web_down_reddit by (rule fetchAllPosts_only_curated)
  have s1: "posts ?s1 = []" "write_ok ?s1 (dbPath ?s1)" "dbPath ?s1 = dbPath store0"
    by (simp_all add: snd_getCuratedResources store0_def)
  have st: "snd (fetchAllPosts web_down store0) = snd (upsertPosts ?c ?s1)"
    using snd_fetchAllPosts [of web_down store0] r by simp
  have "?c \<noteq> []" using curated_length [of store0] by auto
  then have f: "files (snd (upsertPosts ?c ?s1)) (dbPath ?s1) =
      Some (Json (posts (snd (upsertPosts ?c ?s1))))"
    using s1(2) by (rule files_upsertPosts)
  have "distinct (map reddit_id ?c)" by (simp add: curated_ids)
  then have "map reddit_id (posts (snd (upsertPosts ?c ?s1))) = map reddit_id (posts ?s1) @ map reddit_id ?c"
    using s1(1) by (intro ids_upsertPosts_fresh) simp_all
  with s1(1) have i: "map reddit_id (posts (snd (upsertPosts ?c ?s1))) = map reddit_id ?c"
    by simp
  from d s0 web_down_reddit f i show ?thesis
    unfolding st s1(3) by (simp add: curated_ids)
qed

end
